theory Spec2Isabelle
  imports
    Complex_Main
    "HOL-Library.Multiset"
    "HOL-Library.Log_Nat"
    "HOL-Library.Char_ord"
    "HOL-Library.List_Lexorder"
    "HOL-Library.Product_Lexorder"
begin

section \<open>The socket server: rooms, queues and their handlers\<close>

text \<open>
  The server keeps one object \<open>rooms\<close> that maps a room id to an array of queued songs,
  and rewrites \<open>rooms.json\<close> from it in \<open>saveRooms\<close>. A queued song is the object the
  client sent (\<open>id\<close>, \<open>title\<close>, \<open>thumbnail\<close>, \<open>duration\<close>, \<open>author\<close>, \<open>isTop\<close>) with a
  \<open>uuid\<close> that the server adds. The video's \<open>id\<close> is called \<open>vid\<close> here.
\<close>

record video =
  vid :: string
  title :: string
  thumbnail :: string
  duration :: string
  author :: string

record song = video +
  isTop :: bool
  uuid :: string

type_synonym rooms = "string \<rightharpoonup> song list"

text \<open>
  The handlers raise nothing themselves, but a call on a value that is not an array
  throws a \<open>TypeError\<close>, and nothing catches it.
\<close>

datatype error = TypeError

text \<open>
  \<open>rooms\<close> holds the properties of the in-memory object that are its own, \<open>saved\<close> the
  contents of \<open>rooms.json\<close> as last written by \<open>saveRooms\<close>, and \<open>uncaught\<close> the exception
  that escaped a handler, if one did. A handler that throws stops at that point, with the
  store as it is then and with what it had sent.
\<close>

record server =
  rooms :: rooms
  saved :: rooms
  uncaught :: "error option"

definition throw :: "error \<Rightarrow> server \<Rightarrow> server" where
  "throw e s = s\<lparr>uncaught := Some e\<rparr>"

text \<open>
  Per connection: \<open>socket.data.roomId\<close> (absent until the first join) and the rooms the
  socket was added to by \<open>socket.join\<close>.
\<close>

record socket =
  roomId :: "string option"
  joined :: "string set"

text \<open>
  What a handler sends: \<open>socket.emit('queueUpdated', q)\<close> reaches the calling socket only,
  \<open>io.to(roomId).emit('queueUpdated', q)\<close> every socket of the room.
  \<open>Emit_socket_inherited r\<close> is \<open>socket.emit('queueUpdated', v)\<close> for the value \<open>v\<close> that
  every object inherits under the name \<open>r\<close>, which is no queue.
\<close>

datatype emission =
  Emit_socket "song list"
| Emit_room string "song list"
| Emit_socket_inherited string

definition saveRooms :: "server \<Rightarrow> server" where
  "saveRooms s = s\<lparr>saved := rooms s\<rparr>"

text \<open>
  \<open>rooms\<close> is a plain object (\<open>{}\<close>, or what \<open>JSON.parse\<close> returns), so \<open>rooms[roomId]\<close>
  finds, besides the object's own properties, the properties of \<open>Object.prototype\<close>. These
  are functions, listed here with their \<open>length\<close>, and \<open>__proto__\<close>, which is the prototype
  object itself and has no \<open>length\<close>. All of them are truthy, and none is an array.
\<close>

definition objectPrototype :: "(string \<times> nat option) list" where
  "objectPrototype =
     [(''constructor'', Some 1), (''__defineGetter__'', Some 2), (''__defineSetter__'', Some 2),
      (''hasOwnProperty'', Some 1), (''__lookupGetter__'', Some 1), (''__lookupSetter__'', Some 1),
      (''isPrototypeOf'', Some 1), (''propertyIsEnumerable'', Some 1), (''toString'', Some 0),
      (''valueOf'', Some 0), (''__proto__'', None), (''toLocaleString'', Some 0)]"

text \<open>
  The value of \<open>rooms[roomId]\<close>: an array of the object's own, an inherited value (with its
  \<open>length\<close>, if it has one), or \<open>undefined\<close>.
\<close>

datatype slot =
  Own "song list"
| Inherited "nat option"

definition lookupRoom :: "rooms \<Rightarrow> string \<Rightarrow> slot option" where
  "lookupRoom m r =
     (case m r of
        Some queue \<Rightarrow> Some (Own queue)
      | None \<Rightarrow> (case map_of objectPrototype r of
                   None \<Rightarrow> None
                 | Some len \<Rightarrow> Some (Inherited len)))"

text \<open>\<open>v.length > 0\<close> for an inherited value; \<open>undefined > 0\<close> is false.\<close>

definition lengthPositive :: "nat option \<Rightarrow> bool" where
  "lengthPositive len = (case len of None \<Rightarrow> False | Some n \<Rightarrow> n > 0)"

text \<open>
  Every queue handler starts with \<open>if (!roomId || !rooms[roomId]) return;\<close> and goes on
  with \<open>rooms[roomId]\<close>. A room id is falsy when it is absent or the empty string; an array,
  also the empty one, and every inherited value are truthy, so \<open>!rooms[roomId]\<close> holds
  exactly when the lookup finds nothing.
\<close>

definition roomGuard :: "socket \<Rightarrow> server \<Rightarrow> (string \<times> slot) option" where
  "roomGuard sock s =
     (case roomId sock of
        None \<Rightarrow> None
      | Some r \<Rightarrow>
          if r = [] then None
          else (case lookupRoom (rooms s) r of None \<Rightarrow> None | Some v \<Rightarrow> Some (r, v)))"

text \<open>
  The socket's room and its queue, when the guard lets the handler pass with an array of
  the store's own.
\<close>

definition currentRoom :: "socket \<Rightarrow> server \<Rightarrow> (string \<times> song list) option" where
  "currentRoom sock s =
     (case roomGuard sock s of
        Some (r, Own queue) \<Rightarrow> Some (r, queue)
      | _ \<Rightarrow> None)"

text \<open>\<open>Array.prototype.findIndex\<close>: the first index whose element passes, or \<open>-1\<close>.\<close>

fun findIndex :: "('a \<Rightarrow> bool) \<Rightarrow> 'a list \<Rightarrow> int" where
  "findIndex P [] = - 1"
| "findIndex P (x # xs) =
     (if P x then 0
      else (let i = findIndex P xs in if i < 0 then - 1 else i + 1))"

text \<open>
  \<open>Array.prototype.splice(start, deleteCount, ...items)\<close> for a start that is not negative:
  the removed elements and the array afterwards. A start beyond the end is the end.
\<close>

definition splice :: "nat \<Rightarrow> nat \<Rightarrow> 'a list \<Rightarrow> 'a list \<Rightarrow> 'a list \<times> 'a list" where
  "splice start deleteCount items xs =
     (take deleteCount (drop start xs),
      take start xs @ items @ drop (start + deleteCount) xs)"

text \<open>\<open>Array.prototype.shift\<close>: drops the first element, if there is one.\<close>

definition shift :: "'a list \<Rightarrow> 'a list" where
  "shift xs = (case xs of [] \<Rightarrow> [] | _ # rest \<Rightarrow> rest)"

subsection \<open>joinRoom\<close>

text \<open>
  \<open>if (!rooms[roomId])\<close> creates and saves the room only when the lookup finds nothing;
  then \<open>rooms[roomId]\<close> is sent, whatever it is.
\<close>

definition joinRoom :: "string \<Rightarrow> socket \<Rightarrow> server \<Rightarrow> socket \<times> server \<times> emission list" where
  "joinRoom r sock s =
     (let sock' = sock\<lparr>roomId := Some r, joined := insert r (joined sock)\<rparr>
      in case lookupRoom (rooms s) r of
           None \<Rightarrow>
             (let s' = saveRooms (s\<lparr>rooms := (rooms s)(r \<mapsto> [])\<rparr>)
              in (sock', s', [Emit_socket []]))
         | Some (Own queue) \<Rightarrow> (sock', s, [Emit_socket queue])
         | Some (Inherited len) \<Rightarrow> (sock', s, [Emit_socket_inherited r]))"

subsection \<open>addSong\<close>

text \<open>
  The uuid is \<open>Date.now() + Math.random().toString()\<close>; the model takes it as the argument
  \<open>fresh\<close>. \<open>{ ...song, uuid }\<close> copies the client's object and overwrites its uuid. On an
  inherited value neither \<open>splice\<close> nor \<open>push\<close> is a function.
\<close>

definition addSong :: "string \<Rightarrow> song \<Rightarrow> socket \<Rightarrow> server \<Rightarrow> server \<times> emission list" where
  "addSong fresh sng sock s =
     (case roomGuard sock s of
        None \<Rightarrow> (s, [])
      | Some (r, Own queue) \<Rightarrow>
          (let queueItem = sng\<lparr>uuid := fresh\<rparr>;
               queue' = (if isTop sng \<and> length queue > 0
                         then snd (splice 1 0 [queueItem] queue)
                         else queue @ [queueItem]);
               s' = saveRooms (s\<lparr>rooms := (rooms s)(r \<mapsto> queue')\<rparr>)
           in (s', [Emit_room r queue']))
      | Some (r, Inherited len) \<Rightarrow> (throw TypeError s, []))"

subsection \<open>pinSong\<close>

text \<open>
  \<open>const [song] = queue.splice(songIndex, 1)\<close> takes the first removed element. The index
  comes from \<open>findIndex\<close> and is below the length (lemma \<open>findIndex_bounds\<close>), so one
  element is always removed; the other branch of the case is never taken. On an inherited
  value \<open>findIndex\<close> is not a function.
\<close>

definition pinSong :: "string \<Rightarrow> socket \<Rightarrow> server \<Rightarrow> server \<times> emission list" where
  "pinSong u sock s =
     (case roomGuard sock s of
        None \<Rightarrow> (s, [])
      | Some (r, Own queue) \<Rightarrow>
          (let songIndex = findIndex (\<lambda>x. uuid x = u) queue
           in if songIndex > 1
              then (case splice (nat songIndex) 1 [] queue of
                      (picked # _, queue1) \<Rightarrow>
                        (let queue2 = snd (splice 1 0 [picked] queue1);
                             s' = saveRooms (s\<lparr>rooms := (rooms s)(r \<mapsto> queue2)\<rparr>)
                         in (s', [Emit_room r queue2]))
                    | ([], _) \<Rightarrow> (s, []))
              else (s, []))
      | Some (r, Inherited len) \<Rightarrow> (throw TypeError s, []))"

subsection \<open>reorderQueue\<close>

text \<open>
  On an inherited value with a positive \<open>length\<close> and a non-empty proposal, \<open>queue[0]\<close> is
  \<open>undefined\<close> and reading its \<open>uuid\<close> throws; otherwise the condition is false.
\<close>

definition reorderQueue :: "song list \<Rightarrow> socket \<Rightarrow> server \<Rightarrow> server \<times> emission list" where
  "reorderQueue newQueue sock s =
     (case roomGuard sock s of
        None \<Rightarrow> (s, [])
      | Some (r, Own queue) \<Rightarrow>
          if length queue > 0 \<and> length newQueue > 0 \<and> uuid (queue ! 0) = uuid (newQueue ! 0)
          then (let s' = saveRooms (s\<lparr>rooms := (rooms s)(r \<mapsto> newQueue)\<rparr>)
                in (s', [Emit_room r newQueue]))
          else (s, [])
      | Some (r, Inherited len) \<Rightarrow>
          if lengthPositive len \<and> length newQueue > 0 then (throw TypeError s, [])
          else (s, []))"

subsection \<open>removeSong\<close>

text \<open>On an inherited value \<open>filter\<close> is not a function.\<close>

definition removeSong :: "string \<Rightarrow> socket \<Rightarrow> server \<Rightarrow> server \<times> emission list" where
  "removeSong u sock s =
     (case roomGuard sock s of
        None \<Rightarrow> (s, [])
      | Some (r, Own queue) \<Rightarrow>
          (let queue' = filter (\<lambda>x. uuid x \<noteq> u) queue;
               s' = saveRooms (s\<lparr>rooms := (rooms s)(r \<mapsto> queue')\<rparr>)
           in (s', [Emit_room r queue']))
      | Some (r, Inherited len) \<Rightarrow> (throw TypeError s, []))"

subsection \<open>songEnded and skipSong\<close>

text \<open>On an inherited value with a positive \<open>length\<close>, \<open>shift\<close> is not a function.\<close>

definition songEnded :: "socket \<Rightarrow> server \<Rightarrow> server \<times> emission list" where
  "songEnded sock s =
     (case roomGuard sock s of
        None \<Rightarrow> (s, [])
      | Some (r, Own queue) \<Rightarrow>
          if length queue > 0
          then (let queue' = shift queue;
                    s' = saveRooms (s\<lparr>rooms := (rooms s)(r \<mapsto> queue')\<rparr>)
                in (s', [Emit_room r queue']))
          else (s, [])
      | Some (r, Inherited len) \<Rightarrow>
          if lengthPositive len then (throw TypeError s, []) else (s, []))"

definition skipSong :: "socket \<Rightarrow> server \<Rightarrow> server \<times> emission list" where
  "skipSong sock s =
     (case roomGuard sock s of
        None \<Rightarrow> (s, [])
      | Some (r, Own queue) \<Rightarrow>
          if length queue > 0
          then (let queue' = shift queue;
                    s' = saveRooms (s\<lparr>rooms := (rooms s)(r \<mapsto> queue')\<rparr>)
                in (s', [Emit_room r queue']))
          else (s, [])
      | Some (r, Inherited len) \<Rightarrow>
          if lengthPositive len then (throw TypeError s, []) else (s, []))"

text \<open>The queue of a room as the store has it; a room that was never joined has none.\<close>

definition entries :: "server \<Rightarrow> string \<Rightarrow> song list" where
  "entries s r = (case rooms s r of None \<Rightarrow> [] | Some queue \<Rightarrow> queue)"

text \<open>Sample data for the closed instances below.\<close>

definition mk :: "string \<Rightarrow> song" where
  "mk u = \<lparr>vid = ''v'', title = ''t'', thumbnail = ''p'', duration = ''3:00'',
           author = ''x'', isTop = False, uuid = u\<rparr>"

definition room1 :: "song list \<Rightarrow> server" where
  "room1 queue = \<lparr>rooms = [''r'' \<mapsto> queue], saved = [''r'' \<mapsto> queue], uncaught = None\<rparr>"

definition sock1 :: socket where
  "sock1 = \<lparr>roomId = Some ''r'', joined = {''r''}\<rparr>"

section \<open>The Firestore client: position keys\<close>

text \<open>
  In \<open>Room.jsx\<close> the queue of a room is a Firestore collection. A document has the video's
  fields and a numeric \<open>order\<close>; the queue is the collection read with
  \<open>orderBy('order', 'asc')\<close>, and its first document is the one playing. Every document is
  written by \<open>addToQueue\<close>, which always sets \<open>order\<close>, and such a query returns only
  documents that have the field, so the \<open>?? 0\<close> fallbacks of the source are never taken and
  \<open>order\<close> is a plain number here. The keys the code produces are integers and halves of
  integers; a key is a rational here, and the sums that produce keys are rounded as
  JavaScript rounds them (\<open>jsAdd\<close> below). The field \<open>createdAt\<close> is written and never read,
  and is left out.
\<close>

record qdoc = video +
  docId :: string
  order :: rat

text \<open>
  A collection is the list of its documents, in no particular order. Firestore orders
  equal \<open>order\<close> values by document id.
\<close>

definition docKey :: "qdoc \<Rightarrow> rat \<times> string" where
  "docKey d = (order d, docId d)"

definition orderedDocs :: "qdoc list \<Rightarrow> qdoc list" where
  "orderedDocs col = sort_key docKey col"

definition setDoc :: "qdoc \<Rightarrow> qdoc list \<Rightarrow> qdoc list" where
  "setDoc d col = filter (\<lambda>x. docId x \<noteq> docId d) col @ [d]"

definition deleteDoc :: "string \<Rightarrow> qdoc list \<Rightarrow> qdoc list" where
  "deleteDoc i col = filter (\<lambda>x. docId x \<noteq> i) col"

definition updateOrder :: "string \<Rightarrow> rat \<Rightarrow> qdoc list \<Rightarrow> qdoc list" where
  "updateOrder i k col = map (\<lambda>x. if docId x = i then x\<lparr>order := k\<rparr> else x) col"

text \<open>
  \<open>normalizeQueue\<close>: one batch that sets the \<open>order\<close> of the document at index \<open>idx\<close> of the
  ordered read to \<open>idx\<close>.
\<close>

definition normalizeQueue :: "qdoc list \<Rightarrow> qdoc list" where
  "normalizeQueue col =
     (let docs = orderedDocs col
      in if length docs = 0 then col
         else fold (\<lambda>(d, idx). updateOrder (docId d) (of_nat idx))
                (zip docs [0 ..< length docs]) col)"

text \<open>
  A JavaScript number is a binary64 double, and \<open>+\<close> returns the double nearest to the exact
  sum, a tie going to the even significand. \<open>log2floor x\<close> is the exponent \<open>e\<close> with
  \<open>2^e \<le> |x| < 2^(e+1)\<close>; a double with that exponent is a multiple of \<open>2^(e-52)\<close>, and
  below \<open>2^-1022\<close> of \<open>2^-1074\<close>. Sums of finite doubles with \<open>1\<close> or \<open>1/2\<close> stay finite.
\<close>

definition log2floor :: "rat \<Rightarrow> int" where
  "log2floor x =
     (let (a, b) = quotient_of x;
          e = bitlen \<bar>a\<bar> - bitlen b
      in if 2 powi e \<le> \<bar>x\<bar> then e else e - 1)"

definition roundEven :: "rat \<Rightarrow> int" where
  "roundEven r =
     (let f = \<lfloor>r\<rfloor>
      in if r - of_int f < 1 / 2 then f
         else if 1 / 2 < r - of_int f then f + 1
         else if even f then f else f + 1)"

definition toDouble :: "rat \<Rightarrow> rat" where
  "toDouble x =
     (if x = 0 then 0
      else (let q = 2 powi (max (log2floor x) (- 1022) - 52)
            in of_int (roundEven (x / q)) * q))"

definition jsAdd :: "rat \<Rightarrow> rat \<Rightarrow> rat" where
  "jsAdd x y = toDouble (x + y)"

text \<open>The two expressions of \<open>addToQueue\<close> that compute the new document's key.\<close>

definition lastOrder :: "qdoc list \<Rightarrow> rat" where
  "lastOrder items = (if length items = 0 then - 1 else order (last items))"

definition newOrder :: "bool \<Rightarrow> qdoc list \<Rightarrow> rat" where
  "newOrder toTop items =
     (if toTop \<and> length items > 0 then jsAdd (order (items ! 0)) (1 / 2)
      else jsAdd (lastOrder items) 1)"

text \<open>
  \<open>addToQueue\<close>: \<open>fresh\<close> is the id of the reference that \<open>doc(queueColRef)\<close> generates,
  \<open>toTop\<close> the argument \<open>isTop\<close>, and \<open>queueDoc\<close> the document passed to \<open>setDoc\<close>.
\<close>

definition queueDoc :: "string \<Rightarrow> video \<Rightarrow> rat \<Rightarrow> qdoc" where
  "queueDoc fresh v k =
     \<lparr>vid = vid v, title = title v, thumbnail = thumbnail v,
      duration = duration v, author = author v, docId = fresh, order = k\<rparr>"

definition addToQueue :: "string \<Rightarrow> video \<Rightarrow> bool \<Rightarrow> qdoc list \<Rightarrow> qdoc list" where
  "addToQueue fresh v toTop col =
     (let items = orderedDocs col;
          col' = setDoc (queueDoc fresh v (newOrder toTop items)) col
      in if toTop then normalizeQueue col' else col')"

text \<open>\<open>advanceSong\<close>: deletes the first document of the ordered read, then renumbers.\<close>

definition advanceSong :: "qdoc list \<Rightarrow> qdoc list" where
  "advanceSong col =
     (let firstSnap = take 1 (orderedDocs col);
          col' = (case firstSnap of [] \<Rightarrow> col | d # _ \<Rightarrow> deleteDoc (docId d) col)
      in normalizeQueue col')"

text \<open>
  The top-of-tail key as the specification words it: the midpoint between the key of the
  current second entry and the key immediately before it, which is the head's.
\<close>

definition spec_topKey :: "qdoc list \<Rightarrow> rat option" where
  "spec_topKey items =
     (case items of
        h # second # _ \<Rightarrow> Some ((order h + order second) / 2)
      | _ \<Rightarrow> None)"

text \<open>
  What the collection looks like after a renumbering: the documents of an ordered read
  with the keys \<open>0, 1, 2, ...\<close> in that order.
\<close>

definition renumbered :: "qdoc list \<Rightarrow> qdoc list" where
  "renumbered docs = map (\<lambda>(d, idx). d\<lparr>order := of_nat idx\<rparr>) (zip docs [0 ..< length docs])"

text \<open>
  The effect of a batch of \<open>order\<close> updates on one document: the index paired with its id,
  if the batch has one.
\<close>

definition batchTarget :: "(qdoc \<times> nat) list \<Rightarrow> qdoc \<Rightarrow> qdoc" where
  "batchTarget ps x =
     (case map_of (map (\<lambda>(d, idx). (docId d, idx)) ps) (docId x) of
        None \<Rightarrow> x
      | Some idx \<Rightarrow> x\<lparr>order := of_nat idx\<rparr>)"

text \<open>
  A well-formed collection: document ids are unique. The states the client produces one
  operation after the other also have keys that are integers, no two alike.
\<close>

definition wf_col :: "qdoc list \<Rightarrow> bool" where
  "wf_col col = distinct (map docId col)"

definition int_keys :: "qdoc list \<Rightarrow> bool" where
  "int_keys col = (distinct (map order col) \<and> list_all (\<lambda>d. order d \<in> \<int>) col)"

text \<open>
  Keys on which the sums of \<open>addToQueue\<close> are exact: integers of magnitude below \<open>2^52\<close>.
\<close>

definition exact_keys :: "qdoc list \<Rightarrow> bool" where
  "exact_keys col = list_all (\<lambda>d. order d \<in> \<int> \<and> \<bar>order d\<bar> < 2 ^ 52) col"

definition vd :: video where
  "vd = \<lparr>vid = ''v'', title = ''t'', thumbnail = ''p'', duration = ''3:00'', author = ''x''\<rparr>"

definition qd :: "string \<Rightarrow> rat \<Rightarrow> qdoc" where
  "qd i k = \<lparr>vid = ''v'', title = ''t'', thumbnail = ''p'', duration = ''3:00'',
            author = ''x'', docId = i, order = k\<rparr>"

section \<open>Title extraction: the call to the provider and its retry\<close>

text \<open>
  A request payload is an object; only the names of its parameters matter to the retry.
  Of the provider's answer the code reads the status and, through
  \<open>getUnknownParamName\<close>, the string at \<open>error.param\<close> of the body when the body is JSON
  and has one.
\<close>

type_synonym payload = "string list"

record response =
  status :: int
  errorParam :: "string option"

text \<open>
  The provider is outside the program: the answer to the \<open>n\<close>-th call, given the payload.
  A call that gets no answer at all throws and ends the request with status 502; the
  model covers the calls that are answered.
\<close>

type_synonym provider = "nat \<Rightarrow> payload \<Rightarrow> response"

text \<open>
  \<open>sent\<close> lists the payloads posted so far, \<open>unsupported\<close> is the process-wide set
  \<open>AI_UNSUPPORTED_PARAMS\<close>.
\<close>

record ai =
  sent :: "payload list"
  unsupported :: "string set"

definition callAi :: "provider \<Rightarrow> payload \<Rightarrow> ai \<Rightarrow> response \<times> ai" where
  "callAi up p st = (up (length (sent st)) p, st\<lparr>sent := sent st @ [p]\<rparr>)"

definition getUnknownParamName :: "response \<Rightarrow> string" where
  "getUnknownParamName out = (case errorParam out of None \<Rightarrow> [] | Some p \<Rightarrow> p)"

definition stripParam :: "payload \<Rightarrow> string \<Rightarrow> payload" where
  "stripParam p paramName = (if paramName = [] then p else filter (\<lambda>k. k \<noteq> paramName) p)"

text \<open>
  \<open>buildPayload\<close> of the server, with \<open>maxTokens\<close> set or not and the response format
  asked for or not.
\<close>

definition buildPayload :: "bool \<Rightarrow> bool \<Rightarrow> string set \<Rightarrow> payload" where
  "buildPayload maxTokens withResponseFormat unsup =
     (let p0 = [''model'', ''messages'', ''reasoning'', ''temperature'', ''top_p'',
                ''presence_penalty'', ''frequency_penalty''];
          p1 = (if maxTokens \<and> ''max_tokens'' \<notin> unsup then p0 @ [''max_tokens''] else p0);
          p2 = (if maxTokens \<and> ''max_completion_tokens'' \<notin> unsup
                then p1 @ [''max_completion_tokens''] else p1);
          p3 = (if withResponseFormat \<and> ''response_format'' \<notin> unsup
                then p2 @ [''response_format''] else p2);
          p4 = (if ''reasoning'' \<in> unsup then filter (\<lambda>k. k \<noteq> ''reasoning'') p3 else p3);
          p5 = (if ''max_tokens'' \<in> unsup then filter (\<lambda>k. k \<noteq> ''max_tokens'') p4 else p4);
          p6 = (if ''max_completion_tokens'' \<in> unsup
                then filter (\<lambda>k. k \<noteq> ''max_completion_tokens'') p5 else p5)
      in p6)"

text \<open>
  The loop of \<open>callAiOnceWithOptionalRetry\<close>, from \<open>attempt\<close> on, and the call that follows
  the loop when it runs out.
\<close>

function retryLoop :: "provider \<Rightarrow> nat \<Rightarrow> payload \<Rightarrow> ai \<Rightarrow> (response \<times> payload) \<times> ai" where
  "retryLoop up attempt p st =
     (if attempt < 2
      then (let (out, st1) = callAi up p st
            in if 200 \<le> status out \<and> status out < 300 then ((out, p), st1)
               else if status out = 400 \<and> getUnknownParamName out \<noteq> []
               then (let unknown = getUnknownParamName out
                     in retryLoop up (attempt + 1) (stripParam p unknown)
                          (st1\<lparr>unsupported := insert unknown (unsupported st1)\<rparr>))
               else ((out, p), st1))
      else (let (out, st1) = callAi up p st in ((out, p), st1)))"
  by pat_completeness auto

termination
  by (relation "measure (\<lambda>(up, attempt, p, st). 2 - attempt)") auto

definition callAiOnceWithOptionalRetry ::
  "provider \<Rightarrow> payload \<Rightarrow> ai \<Rightarrow> (response \<times> payload) \<times> ai" where
  "callAiOnceWithOptionalRetry up initialPayload st = retryLoop up 0 initialPayload st"

text \<open>
  The serverless variant (\<open>ai-parse-song.js\<close>) has no loop and no set: one call, and one
  more when the first is a 400 that names a parameter. It returns the last answer and the
  payloads it posted.
\<close>

definition netlifyCalls :: "provider \<Rightarrow> payload \<Rightarrow> response \<times> payload list" where
  "netlifyCalls up p =
     (let out = up 0 p
      in if status out = 400 \<and> getUnknownParamName out \<noteq> []
         then (let p' = stripParam p (getUnknownParamName out) in (up 1 p', [p, p']))
         else (out, [p]))"

text \<open>
  A provider that rejects \<open>reasoning\<close> on the first call and \<open>response_format\<close> on the
  second, both with status 400, and accepts from then on.
\<close>

definition picky :: provider where
  "picky n p =
     (if n = 0 then \<lparr>status = 400, errorParam = Some ''reasoning''\<rparr>
      else if n = 1 then \<lparr>status = 400, errorParam = Some ''response_format''\<rparr>
      else \<lparr>status = 200, errorParam = None\<rparr>)"

definition ai0 :: ai where
  "ai0 = \<lparr>sent = [], unsupported = {}\<rparr>"

section \<open>Facts about the array helpers\<close>

lemma findIndex_bounds: "- 1 \<le> findIndex P xs \<and> findIndex P xs < int (length xs)"
  by (induction xs) (auto simp: Let_def)

lemma findIndex_neg_iff: "findIndex P xs < 0 \<longleftrightarrow> (\<forall>x \<in> set xs. \<not> P x)"
  using findIndex_bounds [of P] by (induction xs) (auto simp: Let_def)

lemma findIndex_nth: "0 \<le> findIndex P xs \<Longrightarrow> P (xs ! nat (findIndex P xs))"
proof (induction xs)
  case Nil
  then show ?case by simp
next
  case (Cons x xs)
  show ?case
  proof (cases "P x")
    case True
    then show ?thesis by simp
  next
    case False
    with Cons.prems have nn: "0 \<le> findIndex P xs"
      by (simp add: Let_def split: if_splits)
    with False Cons.IH show ?thesis
      by (simp add: Let_def nat_add_distrib)
  qed
qed

lemma findIndex_first: "0 \<le> findIndex P xs \<Longrightarrow> j < nat (findIndex P xs) \<Longrightarrow> \<not> P (xs ! j)"
proof (induction xs arbitrary: j)
  case Nil
  then show ?case by simp
next
  case (Cons x xs)
  show ?case
  proof (cases "P x")
    case True
    with Cons.prems show ?thesis by simp
  next
    case False
    with Cons.prems have nn: "0 \<le> findIndex P xs"
      by (simp add: Let_def split: if_splits)
    show ?thesis
    proof (cases j)
      case 0
      with False show ?thesis by simp
    next
      case (Suc k)
      with Cons.prems False nn have "k < nat (findIndex P xs)"
        by (simp add: Let_def nat_add_distrib)
      with Cons.IH nn Suc show ?thesis by simp
    qed
  qed
qed

lemma findIndex_eqI:
  "i < length xs \<Longrightarrow> P (xs ! i) \<Longrightarrow> (\<And>j. j < i \<Longrightarrow> \<not> P (xs ! j)) \<Longrightarrow> findIndex P xs = int i"
proof (induction xs arbitrary: i)
  case Nil
  then show ?case by simp
next
  case (Cons x xs)
  show ?case
  proof (cases i)
    case 0
    with Cons.prems show ?thesis by simp
  next
    case (Suc k)
    with Cons.prems(3) [of 0] have nx: "\<not> P x" by simp
    have "findIndex P xs = int k"
    proof (rule Cons.IH)
      show "k < length xs" using Cons.prems(1) Suc by simp
      show "P (xs ! k)" using Cons.prems(2) Suc by simp
      show "\<not> P (xs ! j)" if "j < k" for j
        using Cons.prems(3) [of "Suc j"] that Suc by simp
    qed
    with nx Suc show ?thesis by (simp add: Let_def)
  qed
qed


section \<open>Facts about the room guard and the store\<close>

lemma currentRoom_guard:
  "currentRoom sock s = Some (r, queue) \<Longrightarrow> roomGuard sock s = Some (r, Own queue)"
  by (auto simp: currentRoom_def split: option.splits slot.splits)

lemma roomGuard_OwnD:
  "roomGuard sock s = Some (r, Own queue) \<Longrightarrow> roomId sock = Some r \<and> r \<noteq> [] \<and> rooms s r = Some queue"
  by (auto simp: roomGuard_def lookupRoom_def split: option.splits if_splits)

lemma currentRoom_SomeD:
  "currentRoom sock s = Some (r, queue) \<Longrightarrow> roomId sock = Some r \<and> r \<noteq> [] \<and> rooms s r = Some queue"
  by (auto dest: currentRoom_guard roomGuard_OwnD)

lemma currentRoom_entries: "currentRoom sock s = Some (r, queue) \<Longrightarrow> entries s r = queue"
  by (auto simp: entries_def dest: currentRoom_SomeD)

lemma entries_store [simp]:
  "entries (saveRooms (s\<lparr>rooms := (rooms s)(r \<mapsto> q)\<rparr>)) r' = (if r' = r then q else entries s r')"
  by (simp add: entries_def saveRooms_def)

lemma entries_throw [simp]: "entries (throw e s) r = entries s r"
  by (simp add: entries_def throw_def)

lemma roomGuard_store:
  "roomGuard sock s = Some (r, Own queue) \<Longrightarrow>
   roomGuard sock (saveRooms (s\<lparr>rooms := (rooms s)(r \<mapsto> q)\<rparr>)) = Some (r, Own q)"
  by (auto simp: roomGuard_def lookupRoom_def saveRooms_def split: option.splits if_splits)

lemma currentRoom_store [simp]:
  "currentRoom sock s = Some (r, queue) \<Longrightarrow>
   currentRoom sock (saveRooms (s\<lparr>rooms := (rooms s)(r \<mapsto> q)\<rparr>)) = Some (r, q)"
  using roomGuard_store [OF currentRoom_guard, of sock s r queue q]
  by (simp add: currentRoom_def)

section \<open>Joining a room\<close>

text \<open>
  For a room id that the store has as its own, or that names nothing inherited,
  \<open>joinRoom\<close> sends exactly one message, to the joining socket itself, and it carries the
  room's queue as the store has it at that moment. A room that did not exist is created
  empty first (and saved), so the participant receives the empty sequence; an existing room
  is left as it is, no other room changes, and joining again changes nothing more and sends
  the same snapshot.
\<close>

lemma joinRoom_snapshot:
  assumes "joinRoom r sock s = (sock', s', out)"
    and "rooms s r \<noteq> None \<or> map_of objectPrototype r = None"
  shows "out = [Emit_socket (entries s r)]
       \<and> entries s' r = entries s r
       \<and> rooms s' r \<noteq> None
       \<and> (rooms s r = None \<longrightarrow> entries s r = [] \<and> rooms s' = (rooms s)(r \<mapsto> []) \<and> saved s' = rooms s')
       \<and> (rooms s r \<noteq> None \<longrightarrow> s' = s)
       \<and> (\<forall>r'. r' \<noteq> r \<longrightarrow> rooms s' r' = rooms s r')
       \<and> roomId sock' = Some r \<and> r \<in> joined sock'
       \<and> joinRoom r sock' s' = (sock', s', out)"
proof (cases "rooms s r")
  case None
  with assms(2) have "lookupRoom (rooms s) r = None" by (simp add: lookupRoom_def)
  with assms(1) None show ?thesis
    by (auto simp: joinRoom_def Let_def entries_def saveRooms_def insert_absorb lookupRoom_def)
next
  case (Some queue)
  then have "lookupRoom (rooms s) r = Some (Own queue)" by (simp add: lookupRoom_def)
  with assms(1) Some show ?thesis
    by (auto simp: joinRoom_def Let_def entries_def insert_absorb)
qed

text \<open>
  Claim C8. The claim is for every room id. For the room id \<open>constructor\<close>, which no room
  of the store has, \<open>rooms[roomId]\<close> finds the function every object inherits under that
  name: \<open>joinRoom\<close> creates and saves no room and sends the joining socket that inherited
  value in place of the empty sequence. The socket is then bound to a room that has no
  queue, and its next \<open>addSong\<close> calls \<open>push\<close> on the function and throws.
\<close>

theorem joinRoom_inherited_name:
  "joinRoom ''constructor'' \<lparr>roomId = None, joined = {}\<rparr> (room1 [mk ''a'', mk ''b''])
     = (\<lparr>roomId = Some ''constructor'', joined = {''constructor''}\<rparr>,
        room1 [mk ''a'', mk ''b''],
        [Emit_socket_inherited ''constructor''])
   \<and> rooms (room1 [mk ''a'', mk ''b'']) ''constructor'' = None
   \<and> addSong ''u'' (mk ''x'') \<lparr>roomId = Some ''constructor'', joined = {''constructor''}\<rparr>
        (room1 [mk ''a'', mk ''b''])
     = (throw TypeError (room1 [mk ''a'', mk ''b'']), [])"
  by (simp add: joinRoom_def addSong_def roomGuard_def lookupRoom_def objectPrototype_def
      room1_def Let_def)

section \<open>Advancing the queue on the server\<close>

lemma songEnded_pops_head:
  assumes "currentRoom sock s = Some (r, queue)"
  shows "skipSong sock s = songEnded sock s
       \<and> (queue = [] \<longrightarrow> songEnded sock s = (s, []))
       \<and> (\<forall>h rest. queue = h # rest \<longrightarrow>
             entries (fst (songEnded sock s)) r = rest
           \<and> snd (songEnded sock s) = [Emit_room r rest])
       \<and> length (entries (fst (songEnded sock s)) r) \<le> length queue
       \<and> length queue \<le> length (entries (fst (songEnded sock s)) r) + 1
       \<and> entries (fst (songEnded sock (fst (songEnded sock s)))) r = drop 2 queue"
proof -
  have a: "skipSong sock s = songEnded sock s"
    by (simp add: skipSong_def songEnded_def)
  have b: "songEnded sock s = (s, [])" if "queue = []"
    using currentRoom_guard [OF assms] that by (simp add: songEnded_def)
  have c: "songEnded sock s = (saveRooms (s\<lparr>rooms := (rooms s)(r \<mapsto> rest)\<rparr>), [Emit_room r rest])"
    if "queue = h # rest" for h rest
    using currentRoom_guard [OF assms] that by (simp add: songEnded_def shift_def Let_def)
  have d: "entries (fst (songEnded sock s)) r = drop 1 queue"
    using b c currentRoom_entries [OF assms] by (cases queue) auto
  have e: "entries (fst (songEnded sock (fst (songEnded sock s)))) r = drop 2 queue"
  proof (cases queue)
    case Nil
    with b d show ?thesis by simp
  next
    case (Cons h rest)
    let ?s1 = "saveRooms (s\<lparr>rooms := (rooms s)(r \<mapsto> rest)\<rparr>)"
    have cr: "currentRoom sock ?s1 = Some (r, rest)"
      using assms by simp
    have "entries (fst (songEnded sock ?s1)) r = drop 1 rest"
      using currentRoom_guard [OF cr]
      by (cases rest) (simp_all add: songEnded_def shift_def Let_def entries_def saveRooms_def)
    with c [OF Cons] Cons show ?thesis by simp
  qed
  from a b c d e show ?thesis by (cases queue) auto
qed

section \<open>The handlers as equations\<close>

lemma sock1_room1 [simp]: "currentRoom sock1 (room1 queue) = Some (''r'', queue)"
  by (simp add: currentRoom_def roomGuard_def lookupRoom_def sock1_def room1_def)

lemma room1_entries [simp]: "entries (room1 queue) ''r'' = queue"
  by (simp add: entries_def room1_def)

lemma handler_keeps_rooms:
  "currentRoom sock s = None \<Longrightarrow>
     rooms (fst (addSong fresh sng sock s)) = rooms s \<and> rooms (fst (pinSong u sock s)) = rooms s
   \<and> rooms (fst (reorderQueue nq sock s)) = rooms s \<and> rooms (fst (removeSong u sock s)) = rooms s
   \<and> rooms (fst (songEnded sock s)) = rooms s \<and> rooms (fst (skipSong sock s)) = rooms s"
  by (auto simp: currentRoom_def addSong_def pinSong_def reorderQueue_def removeSong_def
      songEnded_def skipSong_def throw_def split: option.splits slot.splits)

lemma addSong_eq:
  "currentRoom sock s = Some (r, queue) \<Longrightarrow>
   addSong fresh sng sock s =
     (let queue' = (if isTop sng \<and> queue \<noteq> []
                    then take 1 queue @ [sng\<lparr>uuid := fresh\<rparr>] @ drop 1 queue
                    else queue @ [sng\<lparr>uuid := fresh\<rparr>])
      in (saveRooms (s\<lparr>rooms := (rooms s)(r \<mapsto> queue')\<rparr>), [Emit_room r queue']))"
  by (simp add: addSong_def splice_def Let_def currentRoom_guard)

section \<open>Adding a song on the server\<close>

lemma addSong_places:
  assumes "currentRoom sock s = Some (r, queue)"
  shows "(\<forall>h rest. isTop sng \<and> queue = h # rest \<longrightarrow>
            entries (fst (addSong fresh sng sock s)) r = h # sng\<lparr>uuid := fresh\<rparr> # rest
          \<and> entries (fst (addSong fresh sng sock s)) r ! 1 = sng\<lparr>uuid := fresh\<rparr>)
       \<and> (\<not> isTop sng \<or> queue = [] \<longrightarrow>
            entries (fst (addSong fresh sng sock s)) r = queue @ [sng\<lparr>uuid := fresh\<rparr>])
       \<and> snd (addSong fresh sng sock s) = [Emit_room r (entries (fst (addSong fresh sng sock s)) r)]"
  using addSong_eq [OF assms, of fresh sng] by (auto simp: Let_def)

section \<open>Reordering: what is installed\<close>

lemma reorderQueue_eq:
  "currentRoom sock s = Some (r, queue) \<Longrightarrow>
   reorderQueue newQueue sock s =
     (if queue \<noteq> [] \<and> newQueue \<noteq> [] \<and> uuid (hd queue) = uuid (hd newQueue)
      then (saveRooms (s\<lparr>rooms := (rooms s)(r \<mapsto> newQueue)\<rparr>), [Emit_room r newQueue])
      else (s, []))"
  by (cases queue; cases newQueue) (simp_all add: reorderQueue_def Let_def currentRoom_guard)

lemma fresh_uuid: "\<exists>u. u \<notin> uuid ` set (xs :: song list)"
proof -
  have "finite (uuid ` set xs)" by simp
  moreover have "infinite (UNIV :: string set)" by (rule infinite_UNIV_listI)
  ultimately show ?thesis by (metis ex_new_if_finite)
qed

text \<open>
  Claim C10. When the room's queue is \<open>q0 # rest\<close> and the proposal starts with an entry
  that carries the uuid of \<open>q0\<close>, the room's entries become the proposal exactly as sent,
  whatever follows its first element. Nothing compares the proposal with the previous
  entries: the proposal may hold an entry that was never in the room, may leave out every
  queued entry after the head, and may repeat an entry.
\<close>

theorem reorderQueue_verbatim:
  assumes "currentRoom sock s = Some (r, q0 # rest)" and "uuid n0 = uuid q0"
  shows "entries (fst (reorderQueue (n0 # ns) sock s)) r = n0 # ns
       \<and> snd (reorderQueue (n0 # ns) sock s) = [Emit_room r (n0 # ns)]
       \<and> (\<exists>x. x \<notin> set (q0 # rest) \<and> entries (fst (reorderQueue [n0, x] sock s)) r = [n0, x])
       \<and> entries (fst (reorderQueue [n0] sock s)) r = [n0]
       \<and> entries (fst (reorderQueue [n0, n0] sock s)) r = [n0, n0]"
proof -
  have acc: "reorderQueue (n0 # ms) sock s =
      (saveRooms (s\<lparr>rooms := (rooms s)(r \<mapsto> n0 # ms)\<rparr>), [Emit_room r (n0 # ms)])" for ms
    using assms by (simp add: reorderQueue_eq)
  have e: "entries (fst (reorderQueue (n0 # ms) sock s)) r = n0 # ms" for ms
    by (simp add: acc)
  obtain u where u: "u \<notin> uuid ` set (q0 # rest)" using fresh_uuid by blast
  then have "n0\<lparr>uuid := u\<rparr> \<notin> set (q0 # rest)" by force
  then have c3: "\<exists>x. x \<notin> set (q0 # rest) \<and> entries (fst (reorderQueue [n0, x] sock s)) r = [n0, x]"
    using e by blast
  from e acc c3 show ?thesis by simp
qed

text \<open>
  On \<open>[a, b, c]\<close> the proposal \<open>[a, z, z]\<close> is installed: \<open>z\<close> was never queued, \<open>b\<close> is
  gone, and \<open>z\<close> stands twice.
\<close>

theorem reorderQueue_verbatim_witness:
  "entries (fst (reorderQueue [mk ''a'', mk ''z'', mk ''z''] sock1 (room1 [mk ''a'', mk ''b'', mk ''c'']))) ''r''
     = [mk ''a'', mk ''z'', mk ''z'']
   \<and> mk ''z'' \<notin> set [mk ''a'', mk ''b'', mk ''c'']
   \<and> mk ''b'' \<notin> set [mk ''a'', mk ''z'', mk ''z'']
   \<and> \<not> distinct [mk ''a'', mk ''z'', mk ''z'']"
proof -
  have h: "uuid (mk ''a'') = uuid (mk ''a'')" by simp
  have "entries (fst (reorderQueue [mk ''a'', mk ''z'', mk ''z''] sock1
          (room1 [mk ''a'', mk ''b'', mk ''c'']))) ''r'' = [mk ''a'', mk ''z'', mk ''z'']"
    using reorderQueue_verbatim [where rest = "[mk ''b'', mk ''c'']" and ns = "[mk ''z'', mk ''z'']",
        OF sock1_room1 h]
    by blast
  then show ?thesis by (simp add: mk_def)
qed

section \<open>Pinning a song\<close>

lemma pinSong_eq:
  assumes "currentRoom sock s = Some (r, queue)"
  shows "pinSong u sock s =
     (let i = findIndex (\<lambda>x. uuid x = u) queue
      in if i > 1
         then (let queue2 = take 1 queue @ [queue ! nat i]
                              @ drop 1 (take (nat i) queue @ drop (nat i + 1) queue)
               in (saveRooms (s\<lparr>rooms := (rooms s)(r \<mapsto> queue2)\<rparr>), [Emit_room r queue2]))
         else (s, []))"
proof (cases "findIndex (\<lambda>x. uuid x = u) queue > 1")
  case False
  with currentRoom_guard [OF assms] show ?thesis by (simp add: pinSong_def Let_def)
next
  case True
  let ?i = "nat (findIndex (\<lambda>x. uuid x = u) queue)"
  have lt: "?i < length queue"
    using findIndex_bounds [of "\<lambda>x. uuid x = u" queue] True by simp
  then have "take 1 (drop ?i queue) = [queue ! ?i]"
    by (simp add: take_Suc_conv_app_nth [of 0] hd_drop_conv_nth take_Suc)
  then have sp: "splice ?i 1 [] queue = ([queue ! ?i], take ?i queue @ drop (?i + 1) queue)"
    by (simp add: splice_def)
  let ?q1 = "take ?i queue @ drop (?i + 1) queue"
  have tk: "take 1 ?q1 = take 1 queue"
    using True lt by (simp add: min_absorb2)
  have sp2: "snd (splice 1 0 [queue ! ?i] ?q1) = take 1 queue @ [queue ! ?i] @ drop 1 ?q1"
    unfolding splice_def using tk by simp
  have "pinSong u sock s =
      (let queue2 = snd (splice 1 0 [queue ! ?i] ?q1)
       in (saveRooms (s\<lparr>rooms := (rooms s)(r \<mapsto> queue2)\<rparr>), [Emit_room r queue2]))"
    unfolding pinSong_def using currentRoom_guard [OF assms] True sp by (simp add: Let_def)
  then show ?thesis unfolding sp2 using True by (simp add: Let_def)
qed

text \<open>
  Claim C5, as amended. For a socket in a room with queue \<open>queue\<close>: when no entry has the
  uuid, or when an entry at index 0 or 1 has it, \<open>pinSong\<close> changes nothing and sends
  nothing; no error is raised or reported in either case. When the first entry with the
  uuid sits at an index \<open>i\<close> of 2 or more, it moves to index 1: the head stays, the entries
  that were at \<open>1 ..< i\<close> follow it in their order, then the entries after \<open>i\<close>, and the room
  is sent the result.
\<close>

theorem pinSong_semantics:
  assumes "currentRoom sock s = Some (r, queue)"
  shows "(u \<notin> uuid ` set queue \<longrightarrow> pinSong u sock s = (s, []))
       \<and> (\<forall>i < length queue. i \<le> 1 \<and> uuid (queue ! i) = u \<longrightarrow> pinSong u sock s = (s, []))
       \<and> (\<forall>i < length queue. 2 \<le> i \<and> uuid (queue ! i) = u \<and> (\<forall>j < i. uuid (queue ! j) \<noteq> u) \<longrightarrow>
             entries (fst (pinSong u sock s)) r
               = queue ! 0 # queue ! i # take (i - 1) (drop 1 queue) @ drop (i + 1) queue
           \<and> snd (pinSong u sock s) = [Emit_room r (entries (fst (pinSong u sock s)) r)])"
proof -
  let ?P = "\<lambda>x. uuid x = u"
  have a: "pinSong u sock s = (s, [])" if "u \<notin> uuid ` set queue"
  proof -
    have "findIndex ?P queue < 0" using that by (subst findIndex_neg_iff) auto
    then show ?thesis using pinSong_eq [OF assms, of u] by (simp add: Let_def)
  qed
  have b: "pinSong u sock s = (s, [])" if "i < length queue" "i \<le> 1" "uuid (queue ! i) = u" for i
  proof -
    have "\<not> 1 < findIndex ?P queue"
    proof
      assume gt: "1 < findIndex ?P queue"
      then have "i < nat (findIndex ?P queue)" using that(2) by simp
      with findIndex_first [of ?P queue i] gt that(3) show False by simp
    qed
    then show ?thesis using pinSong_eq [OF assms, of u] by (simp add: Let_def)
  qed
  have c: "entries (fst (pinSong u sock s)) r
               = queue ! 0 # queue ! i # take (i - 1) (drop 1 queue) @ drop (i + 1) queue
           \<and> snd (pinSong u sock s) = [Emit_room r (entries (fst (pinSong u sock s)) r)]"
    if "i < length queue" "2 \<le> i" "uuid (queue ! i) = u" "\<forall>j < i. uuid (queue ! j) \<noteq> u" for i
  proof -
    have fi: "findIndex ?P queue = int i"
      using that by (intro findIndex_eqI) auto
    have t1: "take 1 queue = [queue ! 0]"
      using that(1) by (cases queue) auto
    have d1: "drop 1 (take i queue @ drop (i + 1) queue) = take (i - 1) (drop 1 queue) @ drop (i + 1) queue"
      using that(1,2) by (simp add: drop_take)
    show ?thesis using pinSong_eq [OF assms, of u] fi that(2) t1 d1
      by (simp add: Let_def)
  qed
  from a b c show ?thesis by blast
qed

text \<open>
  On \<open>[a, b, c, d]\<close>: pinning \<open>c\<close> gives \<open>[a, c, b, d]\<close>; pinning \<open>a\<close>, \<open>b\<close> or the absent
  \<open>z\<close> leaves the state as it is and sends nothing.
\<close>

theorem pinSong_semantics_witness:
  "entries (fst (pinSong ''c'' sock1 (room1 [mk ''a'', mk ''b'', mk ''c'', mk ''d'']))) ''r''
     = [mk ''a'', mk ''c'', mk ''b'', mk ''d'']
   \<and> pinSong ''a'' sock1 (room1 [mk ''a'', mk ''b'', mk ''c'', mk ''d''])
     = (room1 [mk ''a'', mk ''b'', mk ''c'', mk ''d''], [])
   \<and> pinSong ''b'' sock1 (room1 [mk ''a'', mk ''b'', mk ''c'', mk ''d''])
     = (room1 [mk ''a'', mk ''b'', mk ''c'', mk ''d''], [])
   \<and> pinSong ''z'' sock1 (room1 [mk ''a'', mk ''b'', mk ''c'', mk ''d''])
     = (room1 [mk ''a'', mk ''b'', mk ''c'', mk ''d''], [])"
proof -
  let ?q = "[mk ''a'', mk ''b'', mk ''c'', mk ''d'']"
  note T = pinSong_semantics [OF sock1_room1, where queue = ?q]
  have less2: "j < 2 \<longleftrightarrow> j = 0 \<or> j = 1" for j :: nat by auto
  have "2 < length ?q \<and> (2::nat) \<le> 2 \<and> uuid (?q ! 2) = ''c'' \<and> (\<forall>j < 2. uuid (?q ! j) \<noteq> ''c'')"
    by (simp add: mk_def less2)
  with T [of "''c''"] have c: "entries (fst (pinSong ''c'' sock1 (room1 ?q))) ''r''
      = ?q ! 0 # ?q ! 2 # take (2 - 1) (drop 1 ?q) @ drop (2 + 1) ?q"
    by blast
  have "0 < length ?q \<and> (0::nat) \<le> 1 \<and> uuid (?q ! 0) = ''a''" by (simp add: mk_def)
  with T [of "''a''"] have a: "pinSong ''a'' sock1 (room1 ?q) = (room1 ?q, [])" by blast
  have "1 < length ?q \<and> (1::nat) \<le> 1 \<and> uuid (?q ! 1) = ''b''" by (simp add: mk_def)
  with T [of "''b''"] have b: "pinSong ''b'' sock1 (room1 ?q) = (room1 ?q, [])" by blast
  have "''z'' \<notin> uuid ` set ?q" by (simp add: mk_def)
  with T [of "''z''"] have z: "pinSong ''z'' sock1 (room1 ?q) = (room1 ?q, [])" by blast
  from a b c z show ?thesis by simp
qed

text \<open>
  Claim C5 as stated says that pinning an absent id fails with \<open>EntryNotFound\<close>. On
  \<open>[a, b, c]\<close>, pinning the absent \<open>z\<close> returns the unchanged state and no message, which is
  exactly what pinning the head \<open>a\<close> returns: the handler has no failure to tell apart from
  the no-op.
\<close>

theorem pinSong_absent_counterexample:
  "pinSong ''z'' sock1 (room1 [mk ''a'', mk ''b'', mk ''c'']) = (room1 [mk ''a'', mk ''b'', mk ''c''], [])
   \<and> pinSong ''z'' sock1 (room1 [mk ''a'', mk ''b'', mk ''c''])
     = pinSong ''a'' sock1 (room1 [mk ''a'', mk ''b'', mk ''c''])"
  using pinSong_eq [OF sock1_room1, where queue = "[mk ''a'', mk ''b'', mk ''c'']" and u = "''z''"]
    pinSong_eq [OF sock1_room1, where queue = "[mk ''a'', mk ''b'', mk ''c'']" and u = "''a''"]
  by (simp add: mk_def Let_def)

section \<open>The head under pin, reorder and remove\<close>

lemma removeSong_eq:
  "currentRoom sock s = Some (r, queue) \<Longrightarrow>
   removeSong u sock s =
     (saveRooms (s\<lparr>rooms := (rooms s)(r \<mapsto> filter (\<lambda>x. uuid x \<noteq> u) queue)\<rparr>),
      [Emit_room r (filter (\<lambda>x. uuid x \<noteq> u) queue)])"
  by (simp add: removeSong_def Let_def currentRoom_guard)

text \<open>
  Claim C1, as amended. Let a room's entries be \<open>h # rest\<close>. After \<open>pinSong\<close>, by any
  socket and for any uuid, the room's first entry is still \<open>h\<close>. After \<open>reorderQueue\<close>, by
  any socket and with any proposal, the room's first entry still carries the uuid of \<open>h\<close>.
  After \<open>removeSong u\<close> with \<open>u\<close> other than the uuid of \<open>h\<close>, the first entry is still \<open>h\<close>.
  But \<open>removeSong\<close> with the uuid of \<open>h\<close>, from a socket of that room, removes the head: the
  room is left with the entries of \<open>rest\<close> that have another uuid.
\<close>

theorem head_survives:
  assumes "entries s r = h # rest"
  shows "(\<exists>rest'. entries (fst (pinSong u sock s)) r = h # rest')
       \<and> (\<exists>h' rest'. entries (fst (reorderQueue nq sock s)) r = h' # rest' \<and> uuid h' = uuid h)
       \<and> (u \<noteq> uuid h \<longrightarrow> (\<exists>rest'. entries (fst (removeSong u sock s)) r = h # rest'))
       \<and> (currentRoom sock s = Some (r, h # rest) \<longrightarrow>
            entries (fst (removeSong (uuid h) sock s)) r = filter (\<lambda>x. uuid x \<noteq> uuid h) rest)"
proof (cases "currentRoom sock s")
  case None
  with assms handler_keeps_rooms [OF None] show ?thesis by (simp add: entries_def)
next
  case (Some p)
  obtain r' queue where p: "p = (r', queue)" by (cases p)
  with Some have cr: "currentRoom sock s = Some (r', queue)" by simp
  show ?thesis
  proof (cases "r' = r")
    case False
    have "entries (fst (pinSong u sock s)) r = h # rest"
      using pinSong_eq [OF cr, of u] False assms by (simp add: Let_def)
    moreover have "entries (fst (reorderQueue nq sock s)) r = h # rest"
      using reorderQueue_eq [OF cr, of nq] False assms by simp
    moreover have "entries (fst (removeSong u sock s)) r = h # rest"
      using removeSong_eq [OF cr, of u] False assms by simp
    ultimately show ?thesis using False cr by simp
  next
    case True
    with cr assms currentRoom_entries [OF cr] have q: "queue = h # rest" by simp
    have "\<exists>rest'. entries (fst (pinSong u sock s)) r = h # rest'"
      using pinSong_eq [OF cr, of u] True assms q by (simp add: Let_def)
    moreover have "\<exists>h' rest'. entries (fst (reorderQueue nq sock s)) r = h' # rest' \<and> uuid h' = uuid h"
      using reorderQueue_eq [OF cr, of nq] True assms q by (cases nq) auto
    moreover have "u \<noteq> uuid h \<longrightarrow> (\<exists>rest'. entries (fst (removeSong u sock s)) r = h # rest')"
      using removeSong_eq [OF cr, of u] True q by simp
    moreover have "entries (fst (removeSong (uuid h) sock s)) r = filter (\<lambda>x. uuid x \<noteq> uuid h) rest"
      using removeSong_eq [OF cr, of "uuid h"] True q by simp
    ultimately show ?thesis by simp
  qed
qed

text \<open>
  On \<open>[a, b, c]\<close>: pinning \<open>c\<close>, proposing \<open>[a, c, b]\<close> and removing \<open>b\<close> keep \<open>a\<close> first;
  removing \<open>a\<close> leaves \<open>[b, c]\<close>.
\<close>

theorem head_survives_witness:
  "(\<exists>rest'. entries (fst (pinSong ''c'' sock1 (room1 [mk ''a'', mk ''b'', mk ''c'']))) ''r'' = mk ''a'' # rest')
   \<and> (\<exists>h' rest'. entries (fst (reorderQueue [mk ''a'', mk ''c'', mk ''b''] sock1
          (room1 [mk ''a'', mk ''b'', mk ''c'']))) ''r'' = h' # rest' \<and> uuid h' = ''a'')
   \<and> (\<exists>rest'. entries (fst (removeSong ''b'' sock1 (room1 [mk ''a'', mk ''b'', mk ''c'']))) ''r''
          = mk ''a'' # rest')
   \<and> entries (fst (removeSong ''a'' sock1 (room1 [mk ''a'', mk ''b'', mk ''c'']))) ''r''
          = [mk ''b'', mk ''c'']"
proof -
  let ?s = "room1 [mk ''a'', mk ''b'', mk ''c'']"
  have e: "entries ?s ''r'' = mk ''a'' # [mk ''b'', mk ''c'']" by simp
  have ne: "''b'' \<noteq> uuid (mk ''a'')" and ua: "uuid (mk ''a'') = ''a''" by (simp_all add: mk_def)
  have f: "filter (\<lambda>x. uuid x \<noteq> ''a'') [mk ''b'', mk ''c''] = [mk ''b'', mk ''c'']"
    by (simp add: mk_def)
  from head_survives [OF e, where u = "''c''" and sock = sock1 and nq = "[mk ''a'', mk ''c'', mk ''b'']"]
    head_survives [OF e, where u = "''b''" and sock = sock1 and nq = "[]"] ne ua f
  show ?thesis by simp
qed

text \<open>
  Claim C1 as stated says that \<open>removeSong\<close> with the head's id does not remove the head.
  On \<open>[a, b]\<close>, removing \<open>a\<close> leaves \<open>[b]\<close>.
\<close>

theorem removeSong_head_counterexample:
  "entries (room1 [mk ''a'', mk ''b'']) ''r'' = [mk ''a'', mk ''b'']
   \<and> entries (fst (removeSong ''a'' sock1 (room1 [mk ''a'', mk ''b'']))) ''r'' = [mk ''b'']"
  using removeSong_eq [OF sock1_room1, where queue = "[mk ''a'', mk ''b'']" and u = "''a''"]
  by (simp add: mk_def)

section \<open>Reordering: the guard\<close>

text \<open>
  Claim C2, as amended. For a socket in a room with queue \<open>queue\<close>, \<open>reorderQueue\<close> sends
  something exactly when the queue and the proposal are both non-empty and their first
  elements carry the same uuid. In that case the room's entries become the proposal, the
  rooms are saved, and the proposal is sent to the room. In every other case the state
  is unchanged and nothing is sent, neither to the room nor to the proposer. No other
  room changes in either case.
\<close>

theorem reorderQueue_guard:
  assumes "currentRoom sock s = Some (r, queue)"
  shows "((snd (reorderQueue nq sock s) \<noteq> []) =
            (queue \<noteq> [] \<and> nq \<noteq> [] \<and> uuid (hd nq) = uuid (hd queue)))
       \<and> (queue \<noteq> [] \<and> nq \<noteq> [] \<and> uuid (hd nq) = uuid (hd queue) \<longrightarrow>
            entries (fst (reorderQueue nq sock s)) r = nq
          \<and> saved (fst (reorderQueue nq sock s)) = rooms (fst (reorderQueue nq sock s))
          \<and> snd (reorderQueue nq sock s) = [Emit_room r nq])
       \<and> (\<not> (queue \<noteq> [] \<and> nq \<noteq> [] \<and> uuid (hd nq) = uuid (hd queue)) \<longrightarrow>
            reorderQueue nq sock s = (s, []))
       \<and> (\<forall>r'. r' \<noteq> r \<longrightarrow> rooms (fst (reorderQueue nq sock s)) r' = rooms s r')"
  using reorderQueue_eq [OF assms, of nq] by (auto simp: saveRooms_def entries_def)

text \<open>
  On \<open>[a, b, c]\<close> the proposal \<open>[a, c, b]\<close> is installed and broadcast; on \<open>[b, c]\<close> the same
  proposal, and the empty one, change nothing and send nothing.
\<close>

theorem reorderQueue_guard_witness:
  "entries (fst (reorderQueue [mk ''a'', mk ''c'', mk ''b''] sock1 (room1 [mk ''a'', mk ''b'', mk ''c''])))
      ''r'' = [mk ''a'', mk ''c'', mk ''b'']
   \<and> snd (reorderQueue [mk ''a'', mk ''c'', mk ''b''] sock1 (room1 [mk ''a'', mk ''b'', mk ''c'']))
      = [Emit_room ''r'' [mk ''a'', mk ''c'', mk ''b'']]
   \<and> reorderQueue [mk ''a'', mk ''c'', mk ''b''] sock1 (room1 [mk ''b'', mk ''c''])
      = (room1 [mk ''b'', mk ''c''], [])
   \<and> reorderQueue [] sock1 (room1 [mk ''b'', mk ''c'']) = (room1 [mk ''b'', mk ''c''], [])"
proof -
  have ok: "[mk ''a'', mk ''b'', mk ''c''] \<noteq> [] \<and> [mk ''a'', mk ''c'', mk ''b''] \<noteq> []
      \<and> uuid (hd [mk ''a'', mk ''c'', mk ''b'']) = uuid (hd [mk ''a'', mk ''b'', mk ''c''])"
    by (simp add: mk_def)
  have stale: "\<not> ([mk ''b'', mk ''c''] \<noteq> [] \<and> [mk ''a'', mk ''c'', mk ''b''] \<noteq> []
      \<and> uuid (hd [mk ''a'', mk ''c'', mk ''b'']) = uuid (hd [mk ''b'', mk ''c'']))"
    by (simp add: mk_def)
  have empty: "\<not> ([mk ''b'', mk ''c''] \<noteq> [] \<and> ([] :: song list) \<noteq> []
      \<and> uuid (hd []) = uuid (hd [mk ''b'', mk ''c'']))"
    by simp
  from reorderQueue_guard [OF sock1_room1, where queue = "[mk ''a'', mk ''b'', mk ''c'']" and nq = "[mk ''a'', mk ''c'', mk ''b'']"] ok
  have 1: "entries (fst (reorderQueue [mk ''a'', mk ''c'', mk ''b''] sock1 (room1 [mk ''a'', mk ''b'', mk ''c''])))
      ''r'' = [mk ''a'', mk ''c'', mk ''b'']
   \<and> snd (reorderQueue [mk ''a'', mk ''c'', mk ''b''] sock1 (room1 [mk ''a'', mk ''b'', mk ''c'']))
      = [Emit_room ''r'' [mk ''a'', mk ''c'', mk ''b'']]" by blast
  from reorderQueue_guard [OF sock1_room1, where queue = "[mk ''b'', mk ''c'']" and nq = "[mk ''a'', mk ''c'', mk ''b'']"] stale
  have 2: "reorderQueue [mk ''a'', mk ''c'', mk ''b''] sock1 (room1 [mk ''b'', mk ''c''])
      = (room1 [mk ''b'', mk ''c''], [])" by blast
  from reorderQueue_guard [OF sock1_room1, where queue = "[mk ''b'', mk ''c'']" and nq = "[]"] empty
  have 3: "reorderQueue [] sock1 (room1 [mk ''b'', mk ''c'']) = (room1 [mk ''b'', mk ''c''], [])" by blast
  from 1 2 3 show ?thesis by simp
qed

text \<open>
  Claim C2 as stated says that a rejected proposal has the store's sequence redelivered to
  the proposer. After an advance turned \<open>[a, b, c]\<close> into \<open>[b, c]\<close>, the stale proposal
  \<open>[a, c, b]\<close> is rejected and the handler sends nothing: the proposer does not receive
  \<open>[b, c]\<close>.
\<close>

theorem reorderQueue_stale_counterexample:
  "fst (songEnded sock1 (room1 [mk ''a'', mk ''b'', mk ''c''])) = room1 [mk ''b'', mk ''c'']
   \<and> snd (reorderQueue [mk ''a'', mk ''c'', mk ''b''] sock1 (room1 [mk ''b'', mk ''c''])) = []
   \<and> Emit_socket [mk ''b'', mk ''c'']
       \<notin> set (snd (reorderQueue [mk ''a'', mk ''c'', mk ''b''] sock1 (room1 [mk ''b'', mk ''c''])))"
proof -
  have "songEnded sock1 (room1 [mk ''a'', mk ''b'', mk ''c'']) =
      (saveRooms ((room1 [mk ''a'', mk ''b'', mk ''c''])\<lparr>rooms :=
         (rooms (room1 [mk ''a'', mk ''b'', mk ''c'']))(''r'' \<mapsto> [mk ''b'', mk ''c''])\<rparr>),
       [Emit_room ''r'' [mk ''b'', mk ''c'']])"
    using currentRoom_guard [OF sock1_room1, of "[mk ''a'', mk ''b'', mk ''c'']"]
    by (simp add: songEnded_def shift_def Let_def)
  then have 1: "fst (songEnded sock1 (room1 [mk ''a'', mk ''b'', mk ''c''])) = room1 [mk ''b'', mk ''c'']"
    by (simp add: saveRooms_def room1_def)
  have "uuid (hd [mk ''a'', mk ''c'', mk ''b'']) \<noteq> uuid (hd [mk ''b'', mk ''c''])"
    by (simp add: mk_def)
  then have 2: "snd (reorderQueue [mk ''a'', mk ''c'', mk ''b''] sock1 (room1 [mk ''b'', mk ''c''])) = []"
    using reorderQueue_eq [OF sock1_room1, where queue = "[mk ''b'', mk ''c'']"
        and newQueue = "[mk ''a'', mk ''c'', mk ''b'']"]
    by simp
  from 1 2 show ?thesis by simp
qed

section \<open>Title extraction: how many calls\<close>

text \<open>
  The loop may post three times: twice inside the loop and once more after it. The
  serverless variant posts at most twice.
\<close>

lemma retryLoop_sent_2: "length (sent (snd (retryLoop up 2 p st))) = length (sent st) + 1"
  by (subst retryLoop.simps) (simp add: callAi_def)

lemma retryLoop_sent_1: "length (sent (snd (retryLoop up 1 p st))) \<le> length (sent st) + 2"
proof -
  have "Suc (Suc 0) = 2" by simp
  then show ?thesis
    using retryLoop_sent_2 [of up]
    by (subst retryLoop.simps) (simp add: callAi_def Let_def)
qed

lemma retryLoop_sent_0: "length (sent (snd (retryLoop up 0 p st))) \<le> length (sent st) + 3"
proof -
  have le: "length (sent (snd (retryLoop up 1 q st'))) \<le> length (sent st') + 2" for q st'
    by (rule retryLoop_sent_1)
  show ?thesis
    by (subst retryLoop.simps) (use le in \<open>auto simp: callAi_def Let_def intro: order_trans\<close>)
qed

lemma callAiOnceWithOptionalRetry_at_most_three:
  "length (sent (snd (callAiOnceWithOptionalRetry up p st))) \<le> length (sent st) + 3"
  unfolding callAiOnceWithOptionalRetry_def by (rule retryLoop_sent_0)

lemma netlifyCalls_at_most_two: "length (snd (netlifyCalls up p)) \<le> 2"
  by (simp add: netlifyCalls_def Let_def)

text \<open>
  Claim C9. The claim allows one retry, two calls in all, which is also what the comments
  in the source say. When the provider rejects \<open>reasoning\<close> on the first call and
  \<open>response_format\<close> on the second, \<open>callAiOnceWithOptionalRetry\<close> strips each in turn,
  records both, and posts a third payload: three calls and two retries for one request.
  On the same provider the serverless handler stops after two calls.
\<close>

theorem callAiOnceWithOptionalRetry_three_calls:
  "sent (snd (callAiOnceWithOptionalRetry picky (buildPayload False True {}) ai0)) =
     [[''model'', ''messages'', ''reasoning'', ''temperature'', ''top_p'',
       ''presence_penalty'', ''frequency_penalty'', ''response_format''],
      [''model'', ''messages'', ''temperature'', ''top_p'',
       ''presence_penalty'', ''frequency_penalty'', ''response_format''],
      [''model'', ''messages'', ''temperature'', ''top_p'',
       ''presence_penalty'', ''frequency_penalty'']]
   \<and> length (sent (snd (callAiOnceWithOptionalRetry picky (buildPayload False True {}) ai0))) = 3
   \<and> unsupported (snd (callAiOnceWithOptionalRetry picky (buildPayload False True {}) ai0))
       = {''reasoning'', ''response_format''}
   \<and> length (snd (netlifyCalls picky (buildPayload False True {}))) = 2"
  by (simp add: callAiOnceWithOptionalRetry_def callAi_def picky_def buildPayload_def ai0_def
      getUnknownParamName_def stripParam_def netlifyCalls_def Let_def insert_commute)

text \<open>
  When the second answer is not again a 400 that names a parameter, the server does what
  the claim says: two calls, the second without the rejected parameter, which is recorded.
\<close>

lemma one_retry_when_second_call_is_not_rejected:
  assumes "status (up (length (sent st)) p) = 400"
    and "errorParam (up (length (sent st)) p) = Some k" and "k \<noteq> []"
    and "\<not> (status (up (length (sent st) + 1) (stripParam p k)) = 400
            \<and> getUnknownParamName (up (length (sent st) + 1) (stripParam p k)) \<noteq> [])"
  shows "sent (snd (callAiOnceWithOptionalRetry up p st)) = sent st @ [p, stripParam p k]
       \<and> unsupported (snd (callAiOnceWithOptionalRetry up p st)) = insert k (unsupported st)"
proof -
  let ?st1 = "st\<lparr>sent := sent st @ [p], unsupported := insert k (unsupported st)\<rparr>"
  let ?out2 = "up (length (sent st) + 1) (stripParam p k)"
  have snd1: "snd (retryLoop up 1 (stripParam p k) ?st1) = ?st1\<lparr>sent := sent ?st1 @ [stripParam p k]\<rparr>"
    using assms(4) by (subst retryLoop.simps) (auto simp: callAi_def Let_def)
  have "retryLoop up 0 p st = retryLoop up 1 (stripParam p k) ?st1"
    using assms(1-3) by (subst retryLoop.simps) (simp add: callAi_def Let_def getUnknownParamName_def)
  with snd1 show ?thesis by (simp add: callAiOnceWithOptionalRetry_def)
qed

section \<open>The ordered read of a collection\<close>

lemma set_orderedDocs [simp]: "set (orderedDocs col) = set col"
  by (simp add: orderedDocs_def)

lemma length_orderedDocs [simp]: "length (orderedDocs col) = length col"
  by (simp add: orderedDocs_def)

lemma mset_orderedDocs [simp]: "mset (orderedDocs col) = mset col"
  by (simp add: orderedDocs_def)

lemma orderedDocs_Nil_iff [simp]: "orderedDocs col = [] \<longleftrightarrow> col = []"
  using length_orderedDocs [of col] by (metis length_0_conv)

lemma sorted_orderedDocs: "sorted (map docKey (orderedDocs col))"
  unfolding orderedDocs_def by simp

lemma wf_orderedDocs [simp]: "wf_col (orderedDocs col) = wf_col col"
proof -
  have "mset (map docId (orderedDocs col)) = mset (map docId col)" by simp
  then show ?thesis unfolding wf_col_def by (rule mset_eq_imp_distinct_iff)
qed

lemma inj_docKey: "wf_col col \<Longrightarrow> inj_on docKey (set col)"
  unfolding wf_col_def docKey_def by (auto simp: distinct_map inj_on_def)

lemma orderedDocs_cong: "mset col = mset col' \<Longrightarrow> wf_col col \<Longrightarrow> orderedDocs col = orderedDocs col'"
  unfolding orderedDocs_def by (rule sort_key_eq_sort_key) (auto intro: inj_docKey)

lemma orderedDocs_sorted_id: "sorted (map docKey docs) \<Longrightarrow> orderedDocs docs = docs"
  unfolding orderedDocs_def by (rule sort_key_id_if_sorted)


section \<open>Renumbering\<close>

text \<open>The batch of \<open>normalizeQueue\<close> is one map over the collection.\<close>

lemma docId_batchTarget [simp]: "docId (batchTarget ps x) = docId x"
  by (simp add: batchTarget_def split: option.splits)

lemma fold_updateOrder:
  "distinct (map (\<lambda>(d, idx). docId d) ps) \<Longrightarrow>
   fold (\<lambda>(d, idx). updateOrder (docId d) (of_nat idx)) ps col = map (batchTarget ps) col"
proof (induction ps arbitrary: col)
  case Nil
  then show ?case by (simp add: batchTarget_def)
next
  case (Cons p ps)
  obtain d i where p: "p = (d, i)" by (cases p)
  from Cons.prems p have notin: "docId d \<notin> (\<lambda>(d, idx). docId d) ` set ps" and dist: "distinct (map (\<lambda>(d, idx). docId d) ps)"
    by auto
  have none: "map_of (map (\<lambda>(d, idx). (docId d, idx)) ps) (docId d) = None"
    using notin by (force simp: map_of_eq_None_iff)
  have "batchTarget ps (if docId x = docId d then x\<lparr>order := of_nat i\<rparr> else x) = batchTarget (p # ps) x" for x
    using none by (simp add: batchTarget_def p)
  then show ?case
    using Cons.IH [OF dist] by (simp add: p updateOrder_def)
qed

lemma normalizeQueue_map:
  assumes "wf_col col"
  shows "normalizeQueue col = map (batchTarget (zip (orderedDocs col) [0 ..< length col])) col"
proof (cases "col = []")
  case True
  then show ?thesis by (simp add: normalizeQueue_def orderedDocs_def)
next
  case False
  let ?ps = "zip (orderedDocs col) [0 ..< length col]"
  have "map (\<lambda>(d, idx). docId d) ?ps = map docId (orderedDocs col)"
    by (rule nth_equalityI) simp_all
  then have "distinct (map (\<lambda>(d, idx). docId d) ?ps)"
    using assms wf_orderedDocs [of col] by (simp add: wf_col_def)
  from fold_updateOrder [OF this] False show ?thesis
    by (simp add: normalizeQueue_def Let_def)
qed

lemma batchTarget_nth:
  assumes "wf_col docs" and "i < length docs"
  shows "batchTarget (zip docs [0 ..< length docs]) (docs ! i) = (docs ! i)\<lparr>order := of_nat i\<rparr>"
proof -
  have z: "map (\<lambda>(d, idx). (docId d, idx)) (zip docs [0 ..< length docs])
      = zip (map docId docs) [0 ..< length docs]"
    by (simp add: zip_map1)
  have "map_of (zip (map docId docs) [0 ..< length docs]) (map docId docs ! i) = Some ([0 ..< length docs] ! i)"
    using assms by (intro map_of_zip_nth) (simp_all add: wf_col_def)
  then show ?thesis using assms(2) by (simp add: batchTarget_def z)
qed

lemma renumbered_nth:
  "i < length docs \<Longrightarrow> renumbered docs ! i = (docs ! i)\<lparr>order := of_nat i\<rparr>"
  by (simp add: renumbered_def)

lemma length_renumbered [simp]: "length (renumbered docs) = length docs"
  by (simp add: renumbered_def)

lemma map_batchTarget_renumbered:
  "wf_col docs \<Longrightarrow> map (batchTarget (zip docs [0 ..< length docs])) docs = renumbered docs"
  by (rule nth_equalityI) (simp_all add: batchTarget_nth renumbered_nth)

lemma map_docId_renumbered [simp]: "map docId (renumbered docs) = map docId docs"
  by (rule nth_equalityI) (simp_all add: renumbered_nth)

lemma map_order_renumbered: "map order (renumbered docs) = map of_nat [0 ..< length docs]"
  by (rule nth_equalityI) (simp_all add: renumbered_nth)

lemma sorted_renumbered: "sorted (map docKey (renumbered docs))"
  unfolding sorted_iff_nth_mono
proof (intro allI impI)
  fix i j
  assume "i \<le> j" and "j < length (map docKey (renumbered docs))"
  then show "map docKey (renumbered docs) ! i \<le> map docKey (renumbered docs) ! j"
    by (cases "i = j") (simp_all add: renumbered_nth docKey_def less_eq_prod_def)
qed

lemma orderedDocs_normalizeQueue:
  assumes "wf_col col"
  shows "orderedDocs (normalizeQueue col) = renumbered (orderedDocs col)"
proof -
  let ?docs = "orderedDocs col"
  let ?g = "batchTarget (zip ?docs [0 ..< length col])"
  have wf: "wf_col (map ?g col)"
    using assms by (simp add: wf_col_def comp_def)
  have "mset (map ?g col) = mset (map ?g ?docs)" by simp
  then have "orderedDocs (map ?g col) = orderedDocs (map ?g ?docs)"
    using wf by (rule orderedDocs_cong)
  also have "map ?g ?docs = renumbered ?docs"
    using map_batchTarget_renumbered [of ?docs] assms by simp
  also have "orderedDocs (renumbered ?docs) = renumbered ?docs"
    by (rule orderedDocs_sorted_id) (rule sorted_renumbered)
  finally show ?thesis by (simp add: normalizeQueue_map [OF assms])
qed

lemma mset_normalizeQueue:
  assumes "wf_col col"
  shows "mset (normalizeQueue col) = mset (renumbered (orderedDocs col))"
proof -
  have "mset (normalizeQueue col) = mset (orderedDocs (normalizeQueue col))" by simp
  then show ?thesis by (simp only: orderedDocs_normalizeQueue [OF assms])
qed

lemma wf_normalizeQueue [simp]: "wf_col col \<Longrightarrow> wf_col (normalizeQueue col)"
  by (simp add: normalizeQueue_map wf_col_def comp_def)

text \<open>
  Claim C6. For a collection with unique document ids, \<open>normalizeQueue\<close> rewrites the
  keys in one batch so that the ordered read afterwards is the ordered read before with
  the keys \<open>0, 1, ..., n - 1\<close> in that order: the same documents in the same relative order,
  nothing but \<open>order\<close> changed, and the first entry at key \<open>0\<close>.
\<close>

theorem normalizeQueue_renumbers:
  assumes "wf_col col"
  shows "orderedDocs (normalizeQueue col) = renumbered (orderedDocs col)
       \<and> mset (normalizeQueue col) = mset (renumbered (orderedDocs col))
       \<and> map docId (orderedDocs (normalizeQueue col)) = map docId (orderedDocs col)
       \<and> map order (orderedDocs (normalizeQueue col)) = map of_nat [0 ..< length col]
       \<and> (\<forall>i < length col. orderedDocs (normalizeQueue col) ! i = (orderedDocs col ! i)\<lparr>order := of_nat i\<rparr>)
       \<and> (col \<noteq> [] \<longrightarrow> orderedDocs (normalizeQueue col) ! 0 = (orderedDocs col ! 0)\<lparr>order := 0\<rparr>)"
proof -
  note e = orderedDocs_normalizeQueue [OF assms]
  have "orderedDocs (normalizeQueue col) ! 0 = (orderedDocs col ! 0)\<lparr>order := 0\<rparr>" if "col \<noteq> []"
    using that renumbered_nth [of 0 "orderedDocs col"] by (simp add: e)
  then show ?thesis
    using mset_normalizeQueue [OF assms] by (simp add: e map_order_renumbered renumbered_nth)
qed


text \<open>
  A collection with keys \<open>7, 1/2, 3, 3\<close> reads as \<open>a, b, d, c\<close> (the two keys \<open>3\<close> in the order
  of their ids) and after the renumbering reads the same with the keys \<open>0, 1, 2, 3\<close>.
\<close>

theorem normalizeQueue_renumbers_witness:
  "orderedDocs [qd ''c'' 7, qd ''a'' (1 / 2), qd ''d'' 3, qd ''b'' 3]
     = [qd ''a'' (1 / 2), qd ''b'' 3, qd ''d'' 3, qd ''c'' 7]
   \<and> orderedDocs (normalizeQueue [qd ''c'' 7, qd ''a'' (1 / 2), qd ''d'' 3, qd ''b'' 3])
     = [qd ''a'' 0, qd ''b'' 1, qd ''d'' 2, qd ''c'' 3]"
proof -
  let ?col = "[qd ''c'' 7, qd ''a'' (1 / 2), qd ''d'' 3, qd ''b'' 3]"
  have wf: "wf_col ?col" by (simp add: wf_col_def qd_def)
  have o: "orderedDocs ?col = [qd ''a'' (1 / 2), qd ''b'' 3, qd ''d'' 3, qd ''c'' 7]"
    by code_simp
  have r: "renumbered [qd ''a'' (1 / 2), qd ''b'' 3, qd ''d'' 3, qd ''c'' 7]
      = [qd ''a'' 0, qd ''b'' 1, qd ''d'' 2, qd ''c'' 3]"
    by (simp add: renumbered_def qd_def upt_rec)
  from normalizeQueue_renumbers [OF wf] o r show ?thesis by simp
qed

section \<open>The keys of an ordered read\<close>

lemma docKey_le_order: "docKey a \<le> docKey b \<Longrightarrow> order a \<le> order b"
  by (auto simp: docKey_def less_eq_prod_def)

lemma order_less_docKey: "order a < order b \<Longrightarrow> docKey a \<le> docKey b"
  by (simp add: docKey_def less_eq_prod_def)

lemma orderedDocs_last_max:
  assumes "d \<in> set col"
  shows "order d \<le> order (last (orderedDocs col))"
proof -
  let ?docs = "orderedDocs col"
  from assms have ne: "?docs \<noteq> []" by auto
  from assms obtain i where i: "i < length ?docs" "?docs ! i = d"
    by (metis in_set_conv_nth set_orderedDocs)
  have "map docKey ?docs ! i \<le> map docKey ?docs ! (length ?docs - 1)"
    using sorted_orderedDocs [of col] i(1) by (intro sorted_nth_mono) simp_all
  then have "docKey d \<le> docKey (last ?docs)"
    using i ne by (simp add: last_conv_nth)
  then show ?thesis by (rule docKey_le_order)
qed

lemma orderedDocs_head_min:
  assumes "d \<in> set col"
  shows "order (orderedDocs col ! 0) \<le> order d"
proof -
  let ?docs = "orderedDocs col"
  from assms obtain i where i: "i < length ?docs" "?docs ! i = d"
    by (metis in_set_conv_nth set_orderedDocs)
  have "map docKey ?docs ! 0 \<le> map docKey ?docs ! i"
    using sorted_orderedDocs [of col] i(1) by (intro sorted_nth_mono) simp_all
  moreover from i(1) have "0 < length ?docs" by auto
  ultimately have "docKey (?docs ! 0) \<le> docKey d" using i by (simp del: length_orderedDocs)
  then show ?thesis by (rule docKey_le_order)
qed

lemma lastOrder_Max:
  assumes "col \<noteq> []"
  shows "lastOrder (orderedDocs col) = Max (order ` set col)"
proof -
  have "last (orderedDocs col) \<in> set col"
    using assms last_in_set [of "orderedDocs col"] by simp
  then have "Max (order ` set col) = order (last (orderedDocs col))"
    by (intro Max_eqI) (auto intro: orderedDocs_last_max)
  then show ?thesis using assms by (simp add: lastOrder_def)
qed

lemma Ints_gap:
  fixes a b :: rat
  assumes "a \<in> \<int>" and "b \<in> \<int>" and "a < b"
  shows "a + 1 \<le> b"
proof -
  from assms(1,2) obtain x y where xy: "a = of_int x" "b = of_int y"
    by (auto elim!: Ints_cases)
  with assms(3) have "x + 1 \<le> y" by simp
  then have "(of_int (x + 1) :: rat) \<le> of_int y" by (simp only: of_int_le_iff)
  with xy show ?thesis by simp
qed

lemma int_keys_gap:
  assumes "int_keys col" and "a \<in> set col" and "b \<in> set col" and "a \<noteq> b" and "order a \<le> order b"
  shows "order a + 1 \<le> order b"
proof -
  from assms(1) have d: "distinct (map order col)" and ints: "\<forall>d \<in> set col. order d \<in> \<int>"
    by (simp_all add: int_keys_def list_all_iff)
  from d have "inj_on order (set col)" by (simp add: distinct_map)
  with assms(2-4) have "order a \<noteq> order b" by (auto dest: inj_onD)
  with assms(5) have "order a < order b" by simp
  with ints assms(2,3) show ?thesis by (intro Ints_gap) auto
qed

lemma int_keys_mset: "mset col = mset col' \<Longrightarrow> int_keys col = int_keys col'"
proof -
  assume m: "mset col = mset col'"
  then have "mset (map order col) = mset (map order col')" by simp
  then have "distinct (map order col) = distinct (map order col')"
    by (rule mset_eq_imp_distinct_iff)
  moreover from m have "set col = set col'" by (rule mset_eq_setD)
  ultimately show ?thesis by (simp add: int_keys_def list_all_iff)
qed

lemma int_keys_orderedDocs [simp]: "int_keys (orderedDocs col) = int_keys col"
  by (rule int_keys_mset) simp

lemma int_keys_renumbered: "int_keys (renumbered docs)"
proof -
  have "distinct (map (of_nat :: nat \<Rightarrow> rat) [0 ..< length docs])"
    by (simp add: distinct_map inj_on_def)
  moreover have "order d \<in> \<int>" if "d \<in> set (renumbered docs)" for d
  proof -
    from that obtain i where "i < length docs" "renumbered docs ! i = d"
      by (metis in_set_conv_nth length_renumbered)
    then show ?thesis by (auto simp: renumbered_nth)
  qed
  ultimately show ?thesis by (simp add: int_keys_def list_all_iff map_order_renumbered)
qed

lemma int_keys_normalizeQueue: "wf_col col \<Longrightarrow> int_keys (normalizeQueue col)"
  using int_keys_mset [OF mset_normalizeQueue] int_keys_renumbered by simp

lemma fresh_docId: "i \<notin> docId ` set col \<Longrightarrow> x \<in> set col \<Longrightarrow> docId x \<noteq> i"
  by (metis imageI)

section \<open>Writing and deleting documents\<close>

lemma setDoc_fresh: "docId d \<notin> docId ` set col \<Longrightarrow> setDoc d col = col @ [d]"
  unfolding setDoc_def by (simp add: filter_id_conv fresh_docId)

lemma wf_snoc: "wf_col (col @ [d]) \<longleftrightarrow> wf_col col \<and> docId d \<notin> docId ` set col"
  by (auto simp: wf_col_def)

lemma orderedDocs_eqI:
  assumes "mset docs = mset col" and "wf_col col" and "sorted (map docKey docs)"
  shows "orderedDocs col = docs"
proof -
  have "orderedDocs col = orderedDocs docs"
    using assms(1,2) by (intro orderedDocs_cong) simp_all
  with assms(3) show ?thesis by (simp add: orderedDocs_sorted_id)
qed

lemma orderedDocs_deleteDoc:
  "orderedDocs (deleteDoc i col) = filter (\<lambda>x. docId x \<noteq> i) (orderedDocs col)"
  by (simp add: orderedDocs_def deleteDoc_def filter_sort)

lemma wf_deleteDoc [simp]: "wf_col col \<Longrightarrow> wf_col (deleteDoc i col)"
  by (simp add: wf_col_def deleteDoc_def distinct_map_filter)

lemma filter_head_out:
  assumes "distinct (map docId (h # rest))"
  shows "filter (\<lambda>x. docId x \<noteq> docId h) (h # rest) = rest"
  using assms by (auto simp: filter_id_conv dest: fresh_docId)

lemma orderedDocs_advanceSong:
  assumes "wf_col col"
  shows "orderedDocs (advanceSong col) = renumbered (drop 1 (orderedDocs col))"
proof (cases "orderedDocs col")
  case Nil
  then have "col = []" by simp
  then show ?thesis by (simp add: advanceSong_def normalizeQueue_def orderedDocs_def renumbered_def)
next
  case (Cons h rest)
  have "distinct (map docId (h # rest))"
    using assms wf_orderedDocs [of col] Cons by (simp add: wf_col_def)
  then have f: "filter (\<lambda>x. docId x \<noteq> docId h) (h # rest) = rest"
    by (rule filter_head_out)
  have adv: "advanceSong col = normalizeQueue (deleteDoc (docId h) col)"
    by (simp add: advanceSong_def Cons)
  have "orderedDocs (deleteDoc (docId h) col) = rest"
    using f by (simp add: orderedDocs_deleteDoc Cons)
  then show ?thesis
    using orderedDocs_normalizeQueue [of "deleteDoc (docId h) col"] assms
    by (simp add: adv Cons)
qed

section \<open>Sums of keys that are exact\<close>

lemma roundEven_of_int [simp]: "roundEven (of_int n) = n"
  by (simp add: roundEven_def)

lemma log2floor_le:
  assumes "x \<noteq> 0"
  shows "2 powi (log2floor x) \<le> \<bar>x\<bar>"
proof -
  obtain a b where q: "quotient_of x = (a, b)" by (cases "quotient_of x")
  then have b: "0 < b" by (rule quotient_of_denom_pos)
  from q have x: "x = of_int a / of_int b" by (rule quotient_of_div)
  with assms have a: "0 < \<bar>a\<bar>" by auto
  let ?e = "bitlen \<bar>a\<bar> - bitlen b"
  have "2 powi (?e - 1) \<le> \<bar>x\<bar>"
  proof -
    have la: "1 \<le> bitlen \<bar>a\<bar>" and lb: "1 \<le> bitlen b"
      using a b bitlen_eq_zero_iff [of "\<bar>a\<bar>"] bitlen_eq_zero_iff [of b] bitlen_nonneg [of "\<bar>a\<bar>"] bitlen_nonneg [of b]
      by linarith+
    have "(2::int) ^ nat (bitlen \<bar>a\<bar> - 1) \<le> \<bar>a\<bar>" using bitlen_bounds [OF a] by simp
    then have "(of_int ((2::int) ^ nat (bitlen \<bar>a\<bar> - 1)) :: rat) \<le> of_int \<bar>a\<bar>"
      by (simp only: of_int_le_iff)
    then have 1: "(2::rat) powi (bitlen \<bar>a\<bar> - 1) \<le> of_int \<bar>a\<bar>"
      using la by (simp add: power_int_def)
    have "b < (2::int) ^ nat (bitlen b)" using bitlen_bounds [OF b] by simp
    then have "(of_int b :: rat) < of_int ((2::int) ^ nat (bitlen b))"
      by (simp only: of_int_less_iff)
    then have 2: "(of_int b :: rat) \<le> 2 powi (bitlen b)"
      using lb by (simp add: power_int_def)
    have "(2::rat) powi (?e - 1) = 2 powi (bitlen \<bar>a\<bar> - 1) / 2 powi (bitlen b)"
      by (simp add: power_int_diff)
    also have "\<dots> \<le> of_int \<bar>a\<bar> / 2 powi (bitlen b)"
      using 1 by (intro divide_right_mono) simp_all
    also have "\<dots> \<le> of_int \<bar>a\<bar> / of_int b"
      using 2 b a by (intro divide_left_mono) simp_all
    also have "\<dots> = \<bar>x\<bar>" using b by (simp add: x abs_div)
    finally show ?thesis .
  qed
  then show ?thesis by (simp add: log2floor_def q Let_def)
qed

lemma toDouble_exact:
  assumes x: "x = of_int n * 2 powi j" and n: "\<bar>n\<bar> < 2 ^ 53" and j: "- 1074 \<le> j"
  shows "toDouble x = x"
proof (cases "x = 0")
  case True
  then show ?thesis by (simp add: toDouble_def)
next
  case False
  let ?e = "max (log2floor x) (- 1022)"
  let ?q = "(2::rat) powi (?e - 52)"
  have "?e \<le> 52 + j"
  proof -
    have "(2::rat) powi (log2floor x) \<le> \<bar>x\<bar>" using False by (rule log2floor_le)
    also have "\<bar>x\<bar> = of_int \<bar>n\<bar> * 2 powi j" by (simp add: x abs_mult)
    also have "\<dots> < of_int (2 ^ 53) * 2 powi j"
      using n by (intro mult_strict_right_mono) (simp_all only: of_int_less_iff, simp)
    also have "\<dots> = 2 powi (53 + j)" by (simp add: power_int_add)
    finally have lt: "(2::rat) powi (log2floor x) < 2 powi (53 + j)" .
    have "log2floor x < 53 + j"
    proof (rule ccontr)
      assume "\<not> log2floor x < 53 + j"
      then have "53 + j \<le> log2floor x" by simp
      then have "(2::rat) powi (53 + j) \<le> 2 powi (log2floor x)"
        by (rule power_int_increasing) simp
      with lt show False by simp
    qed
    with j show ?thesis by simp
  qed
  then obtain m where m: "j - (?e - 52) = int m"
    by (metis diff_ge_0_iff_ge add.commute diff_diff_eq2 nonneg_int_cases diff_add_eq)
  have "x / ?q = of_int n * 2 powi (j - (?e - 52))"
    by (simp add: x power_int_diff)
  also have "\<dots> = of_int (n * 2 ^ m)" by (simp add: m)
  finally have "x / ?q = of_int (n * 2 ^ m)" .
  then have "of_int (roundEven (x / ?q)) * ?q = x / ?q * ?q"
    by (simp only: roundEven_of_int)
  also have "\<dots> = x" by simp
  finally show ?thesis using False by (simp add: toDouble_def Let_def)
qed

lemma jsAdd_half:
  assumes "k \<in> \<int>" and "\<bar>k\<bar> < 2 ^ 52"
  shows "jsAdd k (1 / 2) = k + 1 / 2"
proof -
  from assms(1) obtain z where z: "k = of_int z" by (auto elim!: Ints_cases)
  with assms(2) have "(of_int \<bar>z\<bar> :: rat) < of_int (2 ^ 52)" by simp
  then have "\<bar>z\<bar> < 2 ^ 52" by (simp only: of_int_less_iff)
  then have "\<bar>2 * z + 1\<bar> < 2 ^ 53" by simp
  moreover have "k + 1 / 2 = of_int (2 * z + 1) * 2 powi (- 1)"
    by (simp add: z power_int_minus field_simps)
  ultimately show ?thesis
    unfolding jsAdd_def by (intro toDouble_exact [of _ "2 * z + 1" "- 1"]) simp_all
qed

lemma jsAdd_one:
  assumes "k \<in> \<int>" and "\<bar>k\<bar> < 2 ^ 52"
  shows "jsAdd k 1 = k + 1"
proof -
  from assms(1) obtain z where z: "k = of_int z" by (auto elim!: Ints_cases)
  with assms(2) have "(of_int \<bar>z\<bar> :: rat) < of_int (2 ^ 52)" by simp
  then have "\<bar>z\<bar> < 2 ^ 52" by (simp only: of_int_less_iff)
  then have "\<bar>z + 1\<bar> < 2 ^ 53" by simp
  moreover have "k + 1 = of_int (z + 1) * 2 powi 0" by (simp add: z)
  ultimately show ?thesis
    unfolding jsAdd_def by (intro toDouble_exact [of _ "z + 1" 0]) simp_all
qed

lemma jsAdd_start: "jsAdd (- 1) 1 = 0"
  by (simp add: jsAdd_def toDouble_def)

lemma exact_keysD:
  "exact_keys col \<Longrightarrow> d \<in> set col \<Longrightarrow> order d \<in> \<int> \<and> \<bar>order d\<bar> < 2 ^ 52"
  by (simp add: exact_keys_def list_all_iff)

lemma newOrder_top_exact:
  assumes "exact_keys col" and "orderedDocs col = h # rest"
  shows "newOrder True (orderedDocs col) = order h + 1 / 2"
proof -
  have "h \<in> set (orderedDocs col)" by (simp add: assms(2))
  then have "h \<in> set col" by simp
  from exact_keysD [OF assms(1) this] show ?thesis
    by (simp add: newOrder_def assms(2) jsAdd_half)
qed

lemma newOrder_append_exact:
  assumes "exact_keys col"
  shows "newOrder False (orderedDocs col) = lastOrder (orderedDocs col) + 1"
proof (cases "col = []")
  case True
  then show ?thesis by (simp add: newOrder_def lastOrder_def jsAdd_start orderedDocs_def)
next
  case False
  then have "last (orderedDocs col) \<in> set col"
    using last_in_set [of "orderedDocs col"] by simp
  from exact_keysD [OF assms this] False show ?thesis
    by (simp add: newOrder_def lastOrder_def jsAdd_one)
qed

text \<open>
  Beyond these keys the sums round: the append key after \<open>2^53\<close> is \<open>2^53\<close> again, and the
  top key after a head at \<open>2^52\<close> is the head's own key.
\<close>

lemma newOrder_rounds:
  "newOrder False (orderedDocs [qd ''a'' (2 ^ 53)]) = 2 ^ 53"
  "newOrder True (orderedDocs [qd ''a'' (2 ^ 52), qd ''b'' (2 ^ 52 + 1)]) = 2 ^ 52"
  by code_simp+

section \<open>Where the client puts a new document\<close>

lemma queueDoc_sel [simp]:
  "docId (queueDoc fresh v k) = fresh" "order (queueDoc fresh v k) = k"
  by (simp_all add: queueDoc_def)

lemma sorted_docKey_Cons:
  "sorted (map docKey (h # rest)) \<longleftrightarrow> (\<forall>d \<in> set rest. docKey h \<le> docKey d) \<and> sorted (map docKey rest)"
  by auto

lemma orderedDocs_addToQueue_top:
  assumes wf: "wf_col col" and ik: "int_keys col" and ex: "exact_keys col"
    and fresh: "fresh \<notin> docId ` set col" and items: "orderedDocs col = h # rest"
  shows "orderedDocs (addToQueue fresh v True col)
           = renumbered (h # queueDoc fresh v (order h + 1 / 2) # rest)"
proof -
  let ?new = "queueDoc fresh v (order h + 1 / 2)"
  let ?col1 = "col @ [?new]"
  have k: "newOrder True (orderedDocs col) = order h + 1 / 2"
    using ex items by (rule newOrder_top_exact)
  have s1: "setDoc ?new col = ?col1"
    using fresh by (intro setDoc_fresh) simp
  have wf1: "wf_col ?col1"
    using wf fresh by (simp add: wf_snoc)
  have srt: "sorted (map docKey (h # rest))"
    using sorted_orderedDocs [of col] by (simp add: items)
  have hset: "h \<in> set col" and rset: "set rest \<subseteq> set col"
    using set_orderedDocs [of col] by (auto simp: items)
  have dist: "distinct (map docId (h # rest))"
    using wf wf_orderedDocs [of col] by (simp add: wf_col_def items)
  have gap: "order h + 1 \<le> order d" if "d \<in> set rest" for d
  proof -
    have "h \<noteq> d" using dist that by auto
    moreover have "order h \<le> order d"
      using srt that by (auto intro: docKey_le_order)
    ultimately show ?thesis
      using ik hset rset that by (intro int_keys_gap [of col]) auto
  qed
  have "sorted (map docKey (h # ?new # rest))"
  proof -
    have "docKey h \<le> docKey ?new" by (intro order_less_docKey) simp
    moreover have "docKey ?new \<le> docKey d" if "d \<in> set rest" for d
      using gap [OF that] by (intro order_less_docKey) simp
    moreover have "docKey h \<le> docKey d" if "d \<in> set rest" for d
      using srt that by auto
    moreover have "sorted (map docKey rest)" using srt by simp
    ultimately show ?thesis by simp
  qed
  moreover have "mset (h # ?new # rest) = mset ?col1"
    using mset_orderedDocs [of col] by (simp add: items)
  ultimately have "orderedDocs ?col1 = h # ?new # rest"
    using wf1 by (intro orderedDocs_eqI)
  then show ?thesis
    using orderedDocs_normalizeQueue [OF wf1] by (simp add: addToQueue_def Let_def k s1)
qed

lemma orderedDocs_addToQueue_append:
  assumes wf: "wf_col col" and ex: "exact_keys col" and fresh: "fresh \<notin> docId ` set col"
  shows "orderedDocs (addToQueue fresh v False col)
           = orderedDocs col @ [queueDoc fresh v (newOrder False (orderedDocs col))]"
proof -
  let ?items = "orderedDocs col"
  let ?new = "queueDoc fresh v (newOrder False ?items)"
  have s1: "setDoc ?new col = col @ [?new]"
    using fresh by (intro setDoc_fresh) simp
  have wf1: "wf_col (col @ [?new])"
    using wf fresh by (simp add: wf_snoc)
  have "docKey d \<le> docKey ?new" if "d \<in> set ?items" for d
  proof -
    from that have "d \<in> set col" by simp
    then have "order d \<le> order (last ?items)" by (rule orderedDocs_last_max)
    moreover from that have "col \<noteq> []" by auto
    ultimately have "order d < order ?new"
      by (simp add: newOrder_append_exact [OF ex] lastOrder_def)
    then show ?thesis by (rule order_less_docKey)
  qed
  then have "sorted (map docKey (?items @ [?new]))"
    using sorted_orderedDocs [of col] by (simp add: sorted_append)
  moreover have "mset (?items @ [?new]) = mset (col @ [?new])" by simp
  ultimately have "orderedDocs (col @ [?new]) = ?items @ [?new]"
    using wf1 by (intro orderedDocs_eqI)
  then show ?thesis by (simp add: addToQueue_def Let_def s1)
qed

lemma orderedDocs_addToQueue_empty:
  "orderedDocs (addToQueue fresh v toTop []) = [queueDoc fresh v 0]"
proof -
  have e: "orderedDocs [] = []" by (simp add: orderedDocs_def)
  have k: "newOrder b [] = 0" for b
    by (simp add: newOrder_def lastOrder_def jsAdd_start)
  have s: "setDoc (queueDoc fresh v 0) [] = [queueDoc fresh v 0]"
    by (simp add: setDoc_def)
  have wf1: "wf_col [queueDoc fresh v 0]" by (simp add: wf_col_def)
  have o1: "orderedDocs [queueDoc fresh v 0] = [queueDoc fresh v 0]"
    by (simp add: orderedDocs_def)
  have "renumbered [queueDoc fresh v 0] = [queueDoc fresh v 0]"
    by (simp add: renumbered_def queueDoc_def)
  with orderedDocs_normalizeQueue [OF wf1] o1
  have "orderedDocs (normalizeQueue [queueDoc fresh v 0]) = [queueDoc fresh v 0]" by simp
  with o1 show ?thesis
    by (cases toTop) (simp_all add: addToQueue_def Let_def e k s)
qed

section \<open>What the client's operations preserve\<close>

lemma int_keys_deleteDoc: "int_keys col \<Longrightarrow> int_keys (deleteDoc i col)"
  by (auto simp: int_keys_def deleteDoc_def distinct_map_filter list_all_iff)

lemma length_normalizeQueue [simp]: "wf_col col \<Longrightarrow> length (normalizeQueue col) = length col"
  by (simp add: normalizeQueue_map)

lemma newOrder_append_Ints:
  assumes "exact_keys col"
  shows "newOrder False (orderedDocs col) \<in> \<int>"
proof (cases "col = []")
  case True
  have "newOrder False (orderedDocs col) = lastOrder (orderedDocs col) + 1"
    by (rule newOrder_append_exact [OF assms])
  with True show ?thesis by (simp add: lastOrder_def orderedDocs_def)
next
  case False
  then have "last (orderedDocs col) \<in> set col"
    using last_in_set [of "orderedDocs col"] by simp
  from exact_keysD [OF assms this] False show ?thesis
    by (simp add: newOrder_append_exact [OF assms] lastOrder_def)
qed

lemma newOrder_append_above:
  assumes "exact_keys col" and "d \<in> set col"
  shows "order d < newOrder False (orderedDocs col)"
proof -
  from assms(2) have "col \<noteq> []" by auto
  with orderedDocs_last_max [OF assms(2)] show ?thesis
    by (simp add: newOrder_append_exact [OF assms(1)] lastOrder_def)
qed

text \<open>
  The client's add, advance, delete and renumber operations keep document ids unique and
  keys integral and distinct, the add as long as its sum is exact.
\<close>

lemma client_invariant:
  assumes "wf_col col" and "int_keys col"
  shows "fresh \<notin> docId ` set col \<and> exact_keys col \<longrightarrow>
           wf_col (addToQueue fresh v toTop col) \<and> int_keys (addToQueue fresh v toTop col)"
    and "wf_col (advanceSong col) \<and> int_keys (advanceSong col)"
    and "wf_col (deleteDoc i col) \<and> int_keys (deleteDoc i col)"
    and "wf_col (normalizeQueue col) \<and> int_keys (normalizeQueue col)"
proof -
  show "wf_col (normalizeQueue col) \<and> int_keys (normalizeQueue col)"
    using assms by (simp add: int_keys_normalizeQueue)
  show "wf_col (deleteDoc i col) \<and> int_keys (deleteDoc i col)"
    using assms by (simp add: int_keys_deleteDoc)
  show "wf_col (advanceSong col) \<and> int_keys (advanceSong col)"
    using assms by (auto simp: advanceSong_def Let_def int_keys_normalizeQueue split: list.splits)
  show "fresh \<notin> docId ` set col \<and> exact_keys col \<longrightarrow>
           wf_col (addToQueue fresh v toTop col) \<and> int_keys (addToQueue fresh v toTop col)"
  proof
    assume "fresh \<notin> docId ` set col \<and> exact_keys col"
    then have fresh: "fresh \<notin> docId ` set col" and ex: "exact_keys col" by simp_all
    let ?new = "queueDoc fresh v (newOrder False (orderedDocs col))"
    have s1: "setDoc (queueDoc fresh v k) col = col @ [queueDoc fresh v k]" for k
      using fresh by (intro setDoc_fresh) simp
    have wf1: "wf_col (col @ [queueDoc fresh v k])" for k
      using assms(1) fresh by (simp add: wf_snoc)
    show "wf_col (addToQueue fresh v toTop col) \<and> int_keys (addToQueue fresh v toTop col)"
    proof (cases toTop)
      case True
      with wf1 show ?thesis by (simp add: addToQueue_def Let_def s1 int_keys_normalizeQueue)
    next
      case False
      have "order ?new \<notin> order ` set col"
      proof
        assume "order ?new \<in> order ` set col"
        then obtain x where x: "x \<in> set col" "order ?new = order x" by (rule imageE)
        from newOrder_append_above [OF ex x(1)] x(2) show False by simp
      qed
      moreover have "order ?new \<in> \<int>"
        using newOrder_append_Ints [OF ex] by simp
      ultimately have "int_keys (col @ [?new])"
        using assms(2) by (simp add: int_keys_def)
      with wf1 False show ?thesis by (simp add: addToQueue_def Let_def s1)
    qed
  qed
qed

section \<open>Position keys of new documents\<close>

text \<open>
  Claim C7, as amended. Take a non-empty queue whose keys are integers of magnitude below
  \<open>2^52\<close>, where the sums of the code are exact. A top-of-tail insert assigns the key of the
  head plus one half; the key of the second entry is not read. When document ids are
  unique and the keys are distinct, this key lies strictly between the head's key and every
  other key. An ordinary append assigns the largest existing key plus one, which is above
  every existing key, so the appended document sorts last. The document written carries
  that key; after a top insert the collection is renumbered at once.
\<close>

theorem addToQueue_keys:
  assumes "col \<noteq> []" and "exact_keys col"
  shows "newOrder True (orderedDocs col) = order (orderedDocs col ! 0) + 1 / 2
       \<and> newOrder False (orderedDocs col) = Max (order ` set col) + 1
       \<and> (\<forall>d \<in> set col. order d < newOrder False (orderedDocs col))
       \<and> (wf_col col \<and> int_keys col \<longrightarrow>
            order (orderedDocs col ! 0) < newOrder True (orderedDocs col)
          \<and> (\<forall>i < length col. 0 < i \<longrightarrow> newOrder True (orderedDocs col) < order (orderedDocs col ! i)))
       \<and> (\<forall>fresh v toTop. fresh \<notin> docId ` set col \<longrightarrow>
            addToQueue fresh v toTop col =
              (if toTop
               then normalizeQueue (col @ [queueDoc fresh v (newOrder True (orderedDocs col))])
               else col @ [queueDoc fresh v (newOrder False (orderedDocs col))]))"
proof -
  let ?items = "orderedDocs col"
  note nonempty = assms(1) and ex = assms(2)
  obtain h rest where items: "?items = h # rest"
    using nonempty by (cases ?items) simp_all
  have a: "newOrder True ?items = order (?items ! 0) + 1 / 2"
    using newOrder_top_exact [OF ex items] by (simp add: items)
  have b: "newOrder False ?items = Max (order ` set col) + 1"
    using lastOrder_Max [OF nonempty] by (simp add: newOrder_append_exact [OF ex])
  have c: "\<forall>d \<in> set col. order d < newOrder False ?items"
    using newOrder_append_above [OF ex] by blast
  have d: "newOrder True ?items < order (?items ! i)"
    if wf: "wf_col col" and ik: "int_keys col" and i: "i < length col" "0 < i" for i
  proof -
    have dist: "distinct (map docId ?items)"
      using wf wf_orderedDocs [of col] by (simp add: wf_col_def)
    then have "distinct ?items" by (simp add: distinct_map)
    moreover from i nonempty have "0 < length ?items" "i < length ?items" "0 \<noteq> i" by simp_all
    ultimately have ne: "?items ! 0 \<noteq> ?items ! i"
      by (simp only: nth_eq_iff_index_eq not_False_eq_True)
    have in0: "?items ! 0 \<in> set col" and ini: "?items ! i \<in> set col"
      using i nonempty nth_mem [of 0 ?items] nth_mem [of i ?items] by auto
    have "order (?items ! 0) \<le> order (?items ! i)"
      using ini by (rule orderedDocs_head_min)
    with ik in0 ini ne have "order (?items ! 0) + 1 \<le> order (?items ! i)"
      by (intro int_keys_gap [of col])
    with a show ?thesis by simp
  qed
  have e: "addToQueue fresh v toTop col =
      (if toTop
       then normalizeQueue (col @ [queueDoc fresh v (newOrder True ?items)])
       else col @ [queueDoc fresh v (newOrder False ?items)])"
    if "fresh \<notin> docId ` set col" for fresh v toTop
  proof -
    have "setDoc (queueDoc fresh v k) col = col @ [queueDoc fresh v k]" for k
      using that by (intro setDoc_fresh) simp
    then show ?thesis by (simp add: addToQueue_def Let_def)
  qed
  from a b c d e show ?thesis by simp
qed

text \<open>
  With keys \<open>0, 1, 2\<close>: the top key is \<open>1/2\<close>, between \<open>0\<close> and \<open>1\<close>; the append key is \<open>3\<close>,
  and the appended document is stored with it.
\<close>

theorem addToQueue_keys_witness:
  "newOrder True (orderedDocs [qd ''b'' 1, qd ''a'' 0, qd ''c'' 2]) = 1 / 2
   \<and> newOrder False (orderedDocs [qd ''b'' 1, qd ''a'' 0, qd ''c'' 2]) = 3
   \<and> order (qd ''a'' 0) < newOrder True (orderedDocs [qd ''b'' 1, qd ''a'' 0, qd ''c'' 2])
   \<and> newOrder True (orderedDocs [qd ''b'' 1, qd ''a'' 0, qd ''c'' 2]) < order (qd ''b'' 1)
   \<and> addToQueue ''n'' vd False [qd ''b'' 1, qd ''a'' 0, qd ''c'' 2]
       = [qd ''b'' 1, qd ''a'' 0, qd ''c'' 2, qd ''n'' 3]"
proof -
  let ?col = "[qd ''b'' 1, qd ''a'' 0, qd ''c'' 2]"
  have ne: "?col \<noteq> []" by simp
  have ex: "exact_keys ?col" by (simp add: exact_keys_def qd_def)
  have o: "orderedDocs ?col = [qd ''a'' 0, qd ''b'' 1, qd ''c'' 2]" by code_simp
  have wf: "wf_col ?col \<and> int_keys ?col"
    by (simp add: wf_col_def int_keys_def qd_def)
  have fr: "''n'' \<notin> docId ` set ?col" by (simp add: qd_def)
  have mx: "Max (order ` set ?col) = 2" by (simp add: qd_def)
  have q: "queueDoc ''n'' vd 3 = qd ''n'' 3" by (simp add: queueDoc_def qd_def vd_def)
  note T = addToQueue_keys [OF ne ex]
  note T1 = T [THEN conjunct1]
  note T2 = T [THEN conjunct2, THEN conjunct1]
  note T4 = T [THEN conjunct2, THEN conjunct2, THEN conjunct2, THEN conjunct1, rule_format, OF wf]
  note T5 = T [THEN conjunct2, THEN conjunct2, THEN conjunct2, THEN conjunct2, rule_format, OF fr]
  from T1 have 1: "newOrder True (orderedDocs ?col) = 1 / 2"
    unfolding o by (simp add: qd_def)
  from T2 mx have 2: "newOrder False (orderedDocs ?col) = 3" by simp
  from T4 [THEN conjunct1] have 3: "order (qd ''a'' 0) < newOrder True (orderedDocs ?col)"
    by (simp add: o)
  have "(1::nat) < length ?col" and "(0::nat) < 1" by simp_all
  from T4 [THEN conjunct2, rule_format, OF this]
  have 4: "newOrder True (orderedDocs ?col) < order (qd ''b'' 1)"
    by (simp add: o)
  from T5 [of vd False] 2 q
  have 5: "addToQueue ''n'' vd False ?col = [qd ''b'' 1, qd ''a'' 0, qd ''c'' 2, qd ''n'' 3]"
    by simp
  from 1 2 3 4 5 show ?thesis by simp
qed

text \<open>
  Claim C7 as stated says the top-of-tail key is the midpoint between the second entry's
  key and the key before it. Add \<open>a\<close>, \<open>b\<close>, \<open>c\<close> and delete \<open>b\<close>: the keys are \<open>0\<close> and \<open>2\<close>.
  The code's top key is \<open>1/2\<close>, the midpoint is \<open>1\<close>. With keys \<open>0\<close> and \<open>5\<close> the code's key is
  \<open>1/2\<close> again, so it is not the second key less some fixed amount either.
\<close>

theorem addToQueue_midpoint_counterexample:
  "deleteDoc ''b'' (addToQueue ''c'' vd False (addToQueue ''b'' vd False (addToQueue ''a'' vd False [])))
     = [qd ''a'' 0, qd ''c'' 2]
   \<and> newOrder True (orderedDocs [qd ''a'' 0, qd ''c'' 2]) = 1 / 2
   \<and> spec_topKey (orderedDocs [qd ''a'' 0, qd ''c'' 2]) = Some 1
   \<and> newOrder True (orderedDocs [qd ''a'' 0, qd ''c'' 5]) = 1 / 2
   \<and> spec_topKey (orderedDocs [qd ''a'' 0, qd ''c'' 5]) = Some (5 / 2)"
  by code_simp

section \<open>Advancing the queue\<close>



section \<open>Where a new entry lands\<close>




text \<open>
  Keys beyond the bound: with the head at \<open>2^53\<close> the top key rounds onto the head's key,
  and a new document whose id sorts before the head's is read first.
\<close>

lemma addToQueue_large_keys:
  "map docId (orderedDocs (addToQueue ''a'' vd True [qd ''h'' (2 ^ 53), qd ''t'' (2 ^ 53 + 2)]))
     = [''a'', ''h'', ''t'']"
  by code_simp


end
